theory Spec2Isabelle
  imports Main "HOL-Library.Word" "HOL-Library.Monad_Syntax"
begin

unbundle bit_operations_syntax

section \<open>Bytes and strings\<close>

text \<open>
  A Go \<open>byte\<close> is an 8-bit word and a \<open>[]byte\<close> or \<open>string\<close> value is a list of bytes.
  String literals of the source are written with \<open>bytes\<close>, which maps every character to
  its code.
\<close>

type_synonym byte = "8 word"

definition bytes :: "string \<Rightarrow> byte list" where
  "bytes s = map of_char s"

section \<open>CopyOnWriteBuffer\<close>

text \<open>
  The struct of \<open>util.go\<close>: the current slice and the flag that tells whether the slice
  is owned by the buffer. \<open>make([]byte, 0, ...)\<close> is the empty list, \<open>append\<close> is \<open>@\<close>.
\<close>

record CopyOnWriteBuffer =
  buffer :: "byte list"
  copied :: bool

definition NewCopyOnWriteBuffer :: "byte list \<Rightarrow> CopyOnWriteBuffer" where
  "NewCopyOnWriteBuffer b = \<lparr>buffer = b, copied = False\<rparr>"

definition Write :: "CopyOnWriteBuffer \<Rightarrow> byte list \<Rightarrow> CopyOnWriteBuffer" where
  "Write b val =
     (let b1 = (if \<not> copied b then b\<lparr>buffer := [], copied := True\<rparr> else b)
      in b1\<lparr>buffer := buffer b1 @ val\<rparr>)"

definition WriteString :: "CopyOnWriteBuffer \<Rightarrow> byte list \<Rightarrow> CopyOnWriteBuffer" where
  "WriteString b val = Write b val"

definition Append :: "CopyOnWriteBuffer \<Rightarrow> byte list \<Rightarrow> CopyOnWriteBuffer" where
  "Append b val =
     (let b1 = (if \<not> copied b then (let tmp = buffer b in b\<lparr>buffer := tmp, copied := True\<rparr>) else b)
      in b1\<lparr>buffer := buffer b1 @ val\<rparr>)"

definition AppendString :: "CopyOnWriteBuffer \<Rightarrow> byte list \<Rightarrow> CopyOnWriteBuffer" where
  "AppendString b val = Append b val"

definition WriteByte :: "CopyOnWriteBuffer \<Rightarrow> byte \<Rightarrow> CopyOnWriteBuffer" where
  "WriteByte b c =
     (let b1 = (if \<not> copied b then b\<lparr>buffer := [], copied := True\<rparr> else b)
      in b1\<lparr>buffer := buffer b1 @ [c]\<rparr>)"

definition AppendByte :: "CopyOnWriteBuffer \<Rightarrow> byte \<Rightarrow> CopyOnWriteBuffer" where
  "AppendByte b c =
     (let b1 = (if \<not> copied b then (let tmp = buffer b in b\<lparr>buffer := tmp, copied := True\<rparr>) else b)
      in b1\<lparr>buffer := buffer b1 @ [c]\<rparr>)"

definition Bytes :: "CopyOnWriteBuffer \<Rightarrow> byte list" where
  "Bytes b = buffer b"

definition IsCopied :: "CopyOnWriteBuffer \<Rightarrow> bool" where
  "IsCopied b = copied b"

text \<open>
  A call of one of the eight methods. \<open>Bytes\<close> and \<open>IsCopied\<close> only read the buffer, so
  they leave the state as it is.
\<close>

datatype cob_op =
    OpWrite "byte list"
  | OpWriteString "byte list"
  | OpWriteByte byte
  | OpAppend "byte list"
  | OpAppendString "byte list"
  | OpAppendByte byte
  | OpBytes
  | OpIsCopied

fun cob_step :: "CopyOnWriteBuffer \<Rightarrow> cob_op \<Rightarrow> CopyOnWriteBuffer" where
  "cob_step b (OpWrite v) = Write b v"
| "cob_step b (OpWriteString v) = WriteString b v"
| "cob_step b (OpWriteByte c) = WriteByte b c"
| "cob_step b (OpAppend v) = Append b v"
| "cob_step b (OpAppendString v) = AppendString b v"
| "cob_step b (OpAppendByte c) = AppendByte b c"
| "cob_step b OpBytes = b"
| "cob_step b OpIsCopied = b"

fun cob_run :: "CopyOnWriteBuffer \<Rightarrow> cob_op list \<Rightarrow> CopyOnWriteBuffer" where
  "cob_run b [] = b"
| "cob_run b (x # xs) = cob_run (cob_step b x) xs"

section \<open>Run-time panics\<close>

text \<open>
  Go checks every index and slice expression and panics when it is out of range. The
  result \<open>None\<close> stands for such a panic, so a function that returns \<open>Some\<close> has not
  failed. \<open>index s i\<close> is \<open>s[i]\<close>, \<open>slice s lo hi\<close> is \<open>s[lo:hi]\<close> and \<open>slice_from s lo\<close>
  is \<open>s[lo:]\<close>; the capacity of an input slice is taken to be its length.
\<close>

definition index :: "'a list \<Rightarrow> nat \<Rightarrow> 'a option" where
  "index s i = (if i < length s then Some (s ! i) else None)"

definition slice :: "'a list \<Rightarrow> nat \<Rightarrow> nat \<Rightarrow> 'a list option" where
  "slice s lo hi = (if lo \<le> hi \<and> hi \<le> length s then Some (take (hi - lo) (drop lo s)) else None)"

definition slice_from :: "'a list \<Rightarrow> nat \<Rightarrow> 'a list option" where
  "slice_from s lo = slice s lo (length s)"

section \<open>Byte classes\<close>

text \<open>
  The four 256-entry tables of \<open>util.go\<close>, written as runs of equal entries:
  \<open>replicate k x\<close> is \<open>k\<close> consecutive entries \<open>x\<close>, starting at index 0.
\<close>

definition spaceTable :: "int list" where
  "spaceTable = replicate 9 0 @ replicate 2 1 @ replicate 2 0 @ [1] @ replicate 18 0 @ [1]
     @ replicate 223 0"

definition punctTable :: "int list" where
  "punctTable = replicate 33 0 @ replicate 15 1 @ replicate 10 0 @ replicate 7 1
     @ replicate 26 0 @ replicate 6 1 @ replicate 26 0 @ replicate 4 1 @ replicate 129 0"

definition urlEscapeTable :: "int list" where
  "urlEscapeTable = replicate 33 0 @ [1, 0, 1, 1, 0] @ replicate 22 1 @ [0, 1, 0]
     @ replicate 28 1 @ replicate 4 0 @ [1, 0] @ replicate 26 1 @ replicate 3 0 @ [1]
     @ replicate 129 0"

definition utf8lenTable :: "int list" where
  "utf8lenTable = replicate 128 1 @ replicate 66 99 @ replicate 30 2 @ replicate 16 3
     @ replicate 8 4 @ replicate 8 99"

text \<open>
  \<open>htmlEscapeTable\<close> holds \<open>nil\<close> (here \<open>None\<close>) everywhere but at the codes of the double
  quote (34), the ampersand (38), \<open><\<close> (60) and \<open>>\<close> (62).
\<close>

definition htmlEscapeTable :: "byte list option list" where
  "htmlEscapeTable = replicate 34 None @ [Some (bytes ''&quot;'')] @ replicate 3 None
     @ [Some (bytes ''&amp;'')] @ replicate 21 None @ [Some (bytes ''&lt;''), None,
     Some (bytes ''&gt;'')] @ replicate 193 None"

definition UTF8Len :: "byte \<Rightarrow> int" where
  "UTF8Len b = utf8lenTable ! unat b"

definition IsPunct :: "byte \<Rightarrow> bool" where
  "IsPunct c = (punctTable ! unat c = 1)"

definition IsSpace :: "byte \<Rightarrow> bool" where
  "IsSpace c = (spaceTable ! unat c = 1)"

definition IsNumeric :: "byte \<Rightarrow> bool" where
  "IsNumeric c = (48 \<le> c \<and> c \<le> 57)"

definition IsHexDecimal :: "byte \<Rightarrow> bool" where
  "IsHexDecimal c = (48 \<le> c \<and> c \<le> 57 \<or> 97 \<le> c \<and> c \<le> 102 \<or> 65 \<le> c \<and> c \<le> 70)"

definition IsAlphaNumeric :: "byte \<Rightarrow> bool" where
  "IsAlphaNumeric c = (97 \<le> c \<and> c \<le> 122 \<or> 65 \<le> c \<and> c \<le> 90 \<or> 48 \<le> c \<and> c \<le> 57)"

definition EscapeHTMLByte :: "byte \<Rightarrow> byte list option" where
  "EscapeHTMLByte b = htmlEscapeTable ! unat b"

section \<open>ReadWhile\<close>

function ReadWhile_loop ::
  "byte list \<Rightarrow> nat \<Rightarrow> nat \<Rightarrow> (byte \<Rightarrow> bool) \<Rightarrow> bool \<Rightarrow> (nat \<times> bool) option" where
  "ReadWhile_loop source j hi pred ok =
     (if j < hi then
        do {
          c1 \<leftarrow> index source j;
          if pred c1 then ReadWhile_loop source (j + 1) hi pred True else Some (j, ok)
        }
      else Some (j, ok))"
  by pat_completeness auto
termination
  by (relation "measure (\<lambda>(source, j, hi, pred, ok). hi - j)") auto

declare ReadWhile_loop.simps [simp del]

definition ReadWhile :: "byte list \<Rightarrow> nat \<times> nat \<Rightarrow> (byte \<Rightarrow> bool) \<Rightarrow> (nat \<times> bool) option" where
  "ReadWhile source idx pred = ReadWhile_loop source (fst idx) (snd idx) pred False"

section \<open>EscapeHTML and UnescapePunctuations\<close>

text \<open>
  Each scanner is the loop of the source, with the loop variable \<open>i\<close>, the cursor \<open>n\<close> and
  the buffer as arguments; the loop returns \<open>n\<close> and the buffer it ends with. The
  \<open>_cob\<close> function is the whole body up to the final buffer, whose \<open>IsCopied\<close> flag tells
  whether the result is the input slice itself; the function proper returns its \<open>Bytes\<close>.
\<close>

function EscapeHTML_loop ::
  "byte list \<Rightarrow> nat \<Rightarrow> nat \<Rightarrow> CopyOnWriteBuffer \<Rightarrow> (nat \<times> CopyOnWriteBuffer) option" where
  "EscapeHTML_loop v i n cob =
     (if i < length v then
        do {
          c \<leftarrow> index v i;
          case htmlEscapeTable ! unat c of
            Some e \<Rightarrow>
              do {
                s \<leftarrow> slice v n i;
                EscapeHTML_loop v (i + 1) (i + 1) (Write (Write cob s) e)
              }
          | None \<Rightarrow> EscapeHTML_loop v (i + 1) n cob
        }
      else Some (n, cob))"
  by pat_completeness auto
termination
  by (relation "measure (\<lambda>(v, i, n, cob). length v - i)") auto

declare EscapeHTML_loop.simps [simp del]

definition EscapeHTML_cob :: "byte list \<Rightarrow> CopyOnWriteBuffer option" where
  "EscapeHTML_cob v =
     do {
       (n, cob) \<leftarrow> EscapeHTML_loop v 0 0 (NewCopyOnWriteBuffer v);
       if IsCopied cob then do { s \<leftarrow> slice_from v n; Some (Write cob s) } else Some cob
     }"

definition EscapeHTML :: "byte list \<Rightarrow> byte list option" where
  "EscapeHTML v = map_option Bytes (EscapeHTML_cob v)"

function UnescapePunctuations_loop ::
  "byte list \<Rightarrow> nat \<Rightarrow> nat \<Rightarrow> CopyOnWriteBuffer \<Rightarrow> (nat \<times> CopyOnWriteBuffer) option" where
  "UnescapePunctuations_loop source i n cob =
     (let limit = length source in
      if i < limit then
        do {
          c \<leftarrow> index source i;
          esc \<leftarrow> (if int i < int limit - 1 \<and> c = 92
                  then map_option IsPunct (index source (i + 1)) else Some False);
          if esc then
            do {
              s \<leftarrow> slice source n i;
              c1 \<leftarrow> index source (i + 1);
              UnescapePunctuations_loop source (i + 2) (i + 2) (WriteByte (Write cob s) c1)
            }
          else UnescapePunctuations_loop source (i + 1) n cob
        }
      else Some (n, cob))"
  by pat_completeness auto
termination
  by (relation "measure (\<lambda>(source, i, n, cob). length source - i)") auto

declare UnescapePunctuations_loop.simps [simp del]

definition UnescapePunctuations_cob :: "byte list \<Rightarrow> CopyOnWriteBuffer option" where
  "UnescapePunctuations_cob source =
     do {
       (n, cob) \<leftarrow> UnescapePunctuations_loop source 0 0 (NewCopyOnWriteBuffer source);
       if IsCopied cob then do { s \<leftarrow> slice_from source n; Some (Write cob s) } else Some cob
     }"

definition UnescapePunctuations :: "byte list \<Rightarrow> byte list option" where
  "UnescapePunctuations source = map_option Bytes (UnescapePunctuations_cob source)"

section \<open>Runes: the library functions the scanners call\<close>

text \<open>
  A \<open>rune\<close> is a signed 32-bit integer, here an \<open>int\<close>. \<open>rune_of_uint64\<close> is the conversion
  \<open>rune(v)\<close> of an unsigned 64-bit value: the low 32 bits, read as two's complement.
  The functions below follow Go's packages \<open>unicode/utf8\<close>, \<open>strconv\<close> and \<open>net/url\<close>.
\<close>

definition rune_of_uint64 :: "nat \<Rightarrow> int" where
  "rune_of_uint64 v =
     (let w = int v mod 4294967296 in if w \<ge> 2147483648 then w - 4294967296 else w)"

definition RuneError :: int where
  "RuneError = 0xFFFD"

definition ValidRune :: "int \<Rightarrow> bool" where
  "ValidRune r = (0 \<le> r \<and> r < 0xD800 \<or> 0xDFFF < r \<and> r \<le> 0x10FFFF)"

definition ToValidRune :: "int \<Rightarrow> int" where
  "ToValidRune v = (if v = 0 \<or> \<not> ValidRune v then 0xFFFD else v)"

text \<open>
  \<open>utf8.EncodeRune\<close>: the bytes it writes into its buffer (the scanners read back exactly
  these). A rune out of range or a surrogate is encoded as \<open>RuneError\<close>.
\<close>

definition EncodeRune3 :: "int \<Rightarrow> byte list" where
  "EncodeRune3 r =
     [0xE0 OR of_int (drop_bit 12 r), 0x80 OR (of_int (drop_bit 6 r) AND 0x3F),
      0x80 OR (of_int r AND 0x3F)]"

definition EncodeRune :: "int \<Rightarrow> byte list" where
  "EncodeRune r =
     (let i = r mod 4294967296 in
      if i \<le> 0x7F then [of_int r]
      else if i \<le> 0x7FF then [0xC0 OR of_int (drop_bit 6 r), 0x80 OR (of_int r AND 0x3F)]
      else if i > 0x10FFFF \<or> (0xD800 \<le> i \<and> i \<le> 0xDFFF) then EncodeRune3 RuneError
      else if i \<le> 0xFFFF then EncodeRune3 r
      else [0xF0 OR of_int (drop_bit 18 r), 0x80 OR (of_int (drop_bit 12 r) AND 0x3F),
            0x80 OR (of_int (drop_bit 6 r) AND 0x3F), 0x80 OR (of_int r AND 0x3F)])"

definition RuneStart :: "byte \<Rightarrow> bool" where
  "RuneStart b = (b AND 0xC0 \<noteq> 0x80)"

text \<open>
  \<open>utf8.DecodeRune\<close>. \<open>utf8_first\<close> is the information of the library's \<open>first\<close> table for
  a byte from 0x80 on: \<open>None\<close> for a byte that cannot start a sequence, otherwise the
  length of the sequence and the range the second byte must lie in.
\<close>

definition utf8_first :: "byte \<Rightarrow> (nat \<times> byte \<times> byte) option" where
  "utf8_first p0 =
     (if p0 < 0xC2 then None
      else if p0 \<le> 0xDF then Some (2, 0x80, 0xBF)
      else if p0 = 0xE0 then Some (3, 0xA0, 0xBF)
      else if p0 = 0xED then Some (3, 0x80, 0x9F)
      else if p0 \<le> 0xEF then Some (3, 0x80, 0xBF)
      else if p0 = 0xF0 then Some (4, 0x90, 0xBF)
      else if p0 \<le> 0xF3 then Some (4, 0x80, 0xBF)
      else if p0 = 0xF4 then Some (4, 0x80, 0x8F)
      else None)"

definition DecodeRune :: "byte list \<Rightarrow> int \<times> nat" where
  "DecodeRune p =
     (let n = length p in
      if n < 1 then (RuneError, 0)
      else
        let p0 = p ! 0 in
        if p0 < 0x80 then (uint p0, 1)
        else
          (case utf8_first p0 of
             None \<Rightarrow> (RuneError, 1)
           | Some (sz, lo, hi) \<Rightarrow>
               if n < sz then (RuneError, 1)
               else
                 let b1 = p ! 1 in
                 if b1 < lo \<or> hi < b1 then (RuneError, 1)
                 else if sz \<le> 2 then
                   (push_bit 6 (uint (p0 AND 0x1F)) OR uint (b1 AND 0x3F), 2)
                 else
                   let b2 = p ! 2 in
                   if b2 < 0x80 \<or> 0xBF < b2 then (RuneError, 1)
                   else if sz \<le> 3 then
                     (push_bit 12 (uint (p0 AND 0x0F)) OR push_bit 6 (uint (b1 AND 0x3F))
                        OR uint (b2 AND 0x3F), 3)
                   else
                     let b3 = p ! 3 in
                     if b3 < 0x80 \<or> 0xBF < b3 then (RuneError, 1)
                     else
                       (push_bit 18 (uint (p0 AND 0x07)) OR push_bit 12 (uint (b1 AND 0x3F))
                          OR push_bit 6 (uint (b2 AND 0x3F)) OR uint (b3 AND 0x3F), 4)))"

text \<open>
  \<open>strconv.ParseUint(s, base, bitSize)\<close>: the value it returns and its error. The scanners
  pass runs of digits only, so the digit separator \<open>_\<close> of base-0 literals is not
  modelled: it is a syntax error here. With base 0 a leading \<open>0\<close> selects base 8
  (or base 2, 8, 16 after \<open>0b\<close>, \<open>0o\<close>, \<open>0x\<close>).
\<close>

datatype NumError = ErrSyntax | ErrRange | ErrBase | ErrBitSize

definition lower :: "byte \<Rightarrow> byte" where
  "lower c = c OR 0x20"

fun ParseUint_digits ::
  "nat \<Rightarrow> nat \<Rightarrow> nat \<Rightarrow> nat \<Rightarrow> byte list \<Rightarrow> nat \<times> NumError option" where
  "ParseUint_digits base cutoff maxVal n [] = (n, None)"
| "ParseUint_digits base cutoff maxVal n (c # s) =
     (if (48 \<le> c \<and> c \<le> 57) \<or> (97 \<le> lower c \<and> lower c \<le> 122) then
        (let d = (if 48 \<le> c \<and> c \<le> 57 then c - 48 else lower c - 97 + 10) in
         if unat d \<ge> base then (0, Some ErrSyntax)
         else if n \<ge> cutoff then (maxVal, Some ErrRange)
         else
           let n0 = (n * base) mod 2 ^ 64;
               n1 = (n0 + unat d) mod 2 ^ 64
           in if n1 < n0 \<or> n1 > maxVal then (maxVal, Some ErrRange)
              else ParseUint_digits base cutoff maxVal n1 s)
      else (0, Some ErrSyntax))"

definition ParseUint :: "byte list \<Rightarrow> nat \<Rightarrow> nat \<Rightarrow> nat \<times> NumError option" where
  "ParseUint s base bitSize =
     (if s = [] then (0, Some ErrSyntax)
      else if \<not> (base = 0 \<or> (2 \<le> base \<and> base \<le> 36)) then (0, Some ErrBase)
      else if bitSize < 1 \<or> bitSize > 64 then (0, Some ErrBitSize)
      else
        let (base1, s1) =
              (if base = 0 then
                 (if s ! 0 = 48 then
                    (if length s \<ge> 3 \<and> lower (s ! 1) = 98 then (2, drop 2 s)
                     else if length s \<ge> 3 \<and> lower (s ! 1) = 111 then (8, drop 2 s)
                     else if length s \<ge> 3 \<and> lower (s ! 1) = 120 then (16, drop 2 s)
                     else (8, drop 1 s))
                  else (10, s))
               else (base, s));
            cutoff = (2 ^ 64 - 1) div base1 + 1;
            maxVal = 2 ^ bitSize - 1
        in ParseUint_digits base1 cutoff maxVal 0 s1)"

text \<open>
  \<open>url.QueryEscape\<close>: letters, digits and \<open>- _ . ~\<close> are kept, a space becomes \<open>+\<close>, every
  other byte becomes \<open>%XX\<close> with upper-case hexadecimal digits.
\<close>

definition upperhex :: "byte list" where
  "upperhex = bytes ''0123456789ABCDEF''"

definition shouldEscape :: "byte \<Rightarrow> bool" where
  "shouldEscape c =
     (if (97 \<le> c \<and> c \<le> 122) \<or> (65 \<le> c \<and> c \<le> 90) \<or> (48 \<le> c \<and> c \<le> 57) then False
      else if c = 45 \<or> c = 95 \<or> c = 46 \<or> c = 126 then False
      else True)"

definition QueryEscape_byte :: "byte \<Rightarrow> byte list" where
  "QueryEscape_byte c =
     (if shouldEscape c then
        (if c = 32 then [43]
         else [37, upperhex ! unat (drop_bit 4 c), upperhex ! unat (c AND 15)])
      else [c])"

definition QueryEscape :: "byte list \<Rightarrow> byte list" where
  "QueryEscape s = concat (map QueryEscape_byte s)"

section \<open>ResolveNumericReferences and ResolveEntityNames\<close>

text \<open>
  The body of the \<open>if source[i] == '&'\<close> block of \<open>ResolveNumericReferences\<close>. It returns
  \<open>Some (i, n, cob)\<close> where the source reaches \<open>continue\<close> (a reference was resolved;
  \<open>i\<close> is the index of its \<open>;\<close>), and \<open>None\<close> where control falls through to
  \<open>i = next - 1\<close>.
\<close>

definition ResolveNumericReferences_match ::
  "byte list \<Rightarrow> nat \<Rightarrow> nat \<Rightarrow> CopyOnWriteBuffer
     \<Rightarrow> (nat \<times> nat \<times> CopyOnWriteBuffer) option option" where
  "ResolveNumericReferences_match source i n cob =
     (let limit = length source; pos = i; next = i + 1 in
      if next < limit then
        do {
          c1 \<leftarrow> index source next;
          if c1 = 35 then
            (let nnext = next + 1 in
             if nnext < limit then
               do {
                 nc \<leftarrow> index source nnext;
                 if nc = 120 \<or> nc = 88 then
                   (let start = nnext + 1 in
                    do {
                      (i, ok) \<leftarrow> ReadWhile source (start, limit) IsHexDecimal;
                      semi \<leftarrow> (if ok \<and> i < limit
                               then map_option (\<lambda>c. c = 59) (index source i) else Some False);
                      if semi then
                        do {
                          digits \<leftarrow> slice source start i;
                          s \<leftarrow> slice source n pos;
                          Some (Some (i, i + 1,
                            Write (Write cob s)
                              (EncodeRune (ToValidRune (rune_of_uint64 (fst (ParseUint digits 16 32)))))))
                        }
                      else Some None
                    })
                 else if 48 \<le> nc \<and> nc \<le> 57 then
                   (let start = nnext in
                    do {
                      (i, ok) \<leftarrow> ReadWhile source (start, limit) IsNumeric;
                      semi \<leftarrow> (if ok \<and> i < limit \<and> int i - int start < 8
                               then map_option (\<lambda>c. c = 59) (index source i) else Some False);
                      if semi then
                        do {
                          digits \<leftarrow> slice source start i;
                          s \<leftarrow> slice source n pos;
                          Some (Some (i, i + 1,
                            Write (Write cob s)
                              (EncodeRune (ToValidRune (rune_of_uint64 (fst (ParseUint digits 0 32)))))))
                        }
                      else Some None
                    })
                 else Some None
               }
             else Some None)
          else Some None
        }
      else Some None)"

lemma ReadWhile_loop_ge:
  "ReadWhile_loop source j hi pred ok = Some (j', ok') \<Longrightarrow> j \<le> j'"
proof (induction "hi - j" arbitrary: j ok rule: less_induct)
  case less
  show ?case
  proof (cases "j < hi \<and> j < length source \<and> pred (source ! j)")
    case True
    with less.prems have step: "ReadWhile_loop source (j + 1) hi pred True = Some (j', ok')"
      by (subst (asm) ReadWhile_loop.simps) (simp add: index_def)
    from True have "hi - (j + 1) < hi - j" by arith
    from less.hyps [OF this step] show ?thesis by simp
  next
    case False
    with less.prems show ?thesis
      by (subst (asm) ReadWhile_loop.simps) (auto simp: index_def split: if_splits)
  qed
qed

lemma ResolveNumericReferences_match_advances:
  "ResolveNumericReferences_match source i n cob = Some (Some (i', n', cob')) \<Longrightarrow> i < i'"
  by (auto simp: ResolveNumericReferences_match_def Let_def ReadWhile_def
        split: if_splits bind_splits dest!: ReadWhile_loop_ge)

function ResolveNumericReferences_loop ::
  "byte list \<Rightarrow> nat \<Rightarrow> nat \<Rightarrow> CopyOnWriteBuffer \<Rightarrow> (nat \<times> CopyOnWriteBuffer) option" where
  "ResolveNumericReferences_loop source i n cob =
     (if i < length source then
        do {
          c \<leftarrow> index source i;
          if c = 38 then
            do {
              m \<leftarrow> ResolveNumericReferences_match source i n cob;
              case m of
                Some (i1, n1, cob1) \<Rightarrow> ResolveNumericReferences_loop source (i1 + 1) n1 cob1
              | None \<Rightarrow> ResolveNumericReferences_loop source ((i + 1) - 1 + 1) n cob
            }
          else ResolveNumericReferences_loop source (i + 1) n cob
        }
      else Some (n, cob))"
  by pat_completeness auto
termination
  by (relation "measure (\<lambda>(source, i, n, cob). length source - i)")
     (auto dest: ResolveNumericReferences_match_advances)

declare ResolveNumericReferences_loop.simps [simp del]

definition ResolveNumericReferences_cob :: "byte list \<Rightarrow> CopyOnWriteBuffer option" where
  "ResolveNumericReferences_cob source =
     do {
       (n, cob) \<leftarrow> ResolveNumericReferences_loop source 0 0 (NewCopyOnWriteBuffer source);
       if IsCopied cob then do { s \<leftarrow> slice_from source n; Some (Write cob s) } else Some cob
     }"

definition ResolveNumericReferences :: "byte list \<Rightarrow> byte list option" where
  "ResolveNumericReferences source = map_option Bytes (ResolveNumericReferences_cob source)"

text \<open>
  \<open>LookUpHTML5EntityByName\<close> and its table are in a file that is not part of the sources
  at hand, so the lookup is the parameter \<open>lookup\<close>: it maps a name to the \<open>Characters\<close> of
  its entity, and to \<open>None\<close> when the name is unknown.
\<close>

definition ResolveEntityNames_match ::
  "(byte list \<Rightarrow> byte list option) \<Rightarrow> byte list \<Rightarrow> nat \<Rightarrow> nat \<Rightarrow> CopyOnWriteBuffer
     \<Rightarrow> (nat \<times> nat \<times> CopyOnWriteBuffer) option option" where
  "ResolveEntityNames_match lookup source i n cob =
     (let limit = length source; pos = i; next = i + 1 in
      do {
        hash \<leftarrow> (if next < limit then map_option (\<lambda>c. c = 35) (index source next)
                 else Some False);
        if \<not> hash then
          (let start = next in
           do {
             (i, ok) \<leftarrow> ReadWhile source (start, limit) IsAlphaNumeric;
             semi \<leftarrow> (if ok \<and> i < limit
                      then map_option (\<lambda>c. c = 59) (index source i) else Some False);
             if semi then
               do {
                 name \<leftarrow> slice source start i;
                 case lookup name of
                   Some characters \<Rightarrow>
                     do {
                       s \<leftarrow> slice source n pos;
                       Some (Some (i, i + 1, Write (Write cob s) characters))
                     }
                 | None \<Rightarrow> Some None
               }
             else Some None
           })
        else Some None
      })"

lemma ResolveEntityNames_match_advances:
  "ResolveEntityNames_match lookup source i n cob = Some (Some (i', n', cob')) \<Longrightarrow> i < i'"
  by (auto simp: ResolveEntityNames_match_def Let_def ReadWhile_def
        split: if_splits bind_splits option.splits dest!: ReadWhile_loop_ge)

function ResolveEntityNames_loop ::
  "(byte list \<Rightarrow> byte list option) \<Rightarrow> byte list \<Rightarrow> nat \<Rightarrow> nat \<Rightarrow> CopyOnWriteBuffer
     \<Rightarrow> (nat \<times> CopyOnWriteBuffer) option" where
  "ResolveEntityNames_loop lookup source i n cob =
     (if i < length source then
        do {
          c \<leftarrow> index source i;
          if c = 38 then
            do {
              m \<leftarrow> ResolveEntityNames_match lookup source i n cob;
              case m of
                Some (i1, n1, cob1) \<Rightarrow> ResolveEntityNames_loop lookup source (i1 + 1) n1 cob1
              | None \<Rightarrow> ResolveEntityNames_loop lookup source ((i + 1) - 1 + 1) n cob
            }
          else ResolveEntityNames_loop lookup source (i + 1) n cob
        }
      else Some (n, cob))"
  by pat_completeness auto
termination
  by (relation "measure (\<lambda>(lookup, source, i, n, cob). length source - i)")
     (auto dest: ResolveEntityNames_match_advances)

declare ResolveEntityNames_loop.simps [simp del]

definition ResolveEntityNames_cob ::
  "(byte list \<Rightarrow> byte list option) \<Rightarrow> byte list \<Rightarrow> CopyOnWriteBuffer option" where
  "ResolveEntityNames_cob lookup source =
     do {
       (n, cob) \<leftarrow> ResolveEntityNames_loop lookup source 0 0 (NewCopyOnWriteBuffer source);
       if IsCopied cob then do { s \<leftarrow> slice_from source n; Some (Write cob s) } else Some cob
     }"

definition ResolveEntityNames ::
  "(byte list \<Rightarrow> byte list option) \<Rightarrow> byte list \<Rightarrow> byte list option" where
  "ResolveEntityNames lookup source = map_option Bytes (ResolveEntityNames_cob lookup source)"

section \<open>URLEscape\<close>

text \<open>
  \<open>int8\<close> is the conversion to a signed 8-bit integer, with the wrap-around written out.
  The test of a percent-escape reads \<open>v[i+1]\<close> twice, as the source does.
\<close>

definition htmlSpace :: "byte list" where
  "htmlSpace = bytes ''%20''"

definition int8 :: "int \<Rightarrow> int" where
  "int8 x = (x + 128) mod 256 - 128"

lemma utf8lenTable_range: "0 < utf8lenTable ! unat (c :: byte) \<and> utf8lenTable ! unat c \<le> 99"
proof -
  have "unat c < 256" using unsigned_less [of c, where 'a = nat] by simp
  then show ?thesis
    by (simp add: utf8lenTable_def nth_append)
qed

text \<open>
  \<open>URLEscape_step\<close> is the body of the loop for an index \<open>i\<close> below the length: the values of
  \<open>i\<close>, \<open>n\<close> and the buffer with which the loop condition is tested next.
\<close>

definition URLEscape_step ::
  "byte list \<Rightarrow> nat \<Rightarrow> nat \<Rightarrow> CopyOnWriteBuffer \<Rightarrow> (nat \<times> nat \<times> CopyOnWriteBuffer) option" where
  "URLEscape_step v i n cob =
     (let limit = length v in
      do {
        c \<leftarrow> index v i;
        if urlEscapeTable ! unat c = 1 then Some (i + 1, n, cob)
        else
          do {
            escaped \<leftarrow> (if c = 37 \<and> i + 2 < limit
                        then do {
                          h1 \<leftarrow> index v (i + 1);
                          h2 \<leftarrow> index v (i + 1);
                          Some (IsHexDecimal h1 \<and> IsHexDecimal h2)
                        }
                        else Some False);
            if escaped then Some (i + 3, n, cob)
            else
              (let u8len = utf8lenTable ! unat c in
               if u8len = 99 then Some (i + 1, n, cob)
               else if c = 32 then
                 do {
                   s \<leftarrow> slice v n i;
                   Some (i + 1, i + 1, Write (Write cob s) htmlSpace)
                 }
               else
                 (let u8len = (if u8len > int (length v) then int8 (int (length v) - 1) else u8len) in
                  if u8len = 0 then Some (i + 1, i + 1, cob)
                  else
                    do {
                      s \<leftarrow> slice v n i;
                      let cob = Write cob s;
                      let stop = i + nat u8len;
                      if stop > length v then Some (i + 1, i + 1, cob)
                      else
                        do {
                          t \<leftarrow> slice v i stop;
                          Some (i + nat u8len, i + nat u8len, Write cob (QueryEscape t))
                        }
                    }))
          }
      })"

lemma URLEscape_step_advances:
  "URLEscape_step v i n cob = Some (i1, n1, cob1) \<Longrightarrow> i < i1"
  using utf8lenTable_range [of "v ! i"]
  by (auto simp: URLEscape_step_def Let_def index_def int8_def split: if_splits bind_splits)

function URLEscape_loop ::
  "byte list \<Rightarrow> nat \<Rightarrow> nat \<Rightarrow> CopyOnWriteBuffer \<Rightarrow> (nat \<times> CopyOnWriteBuffer) option" where
  "URLEscape_loop v i n cob =
     (if i < length v then
        (case URLEscape_step v i n cob of
           None \<Rightarrow> None
         | Some (i1, n1, cob1) \<Rightarrow> URLEscape_loop v i1 n1 cob1)
      else Some (n, cob))"
  by pat_completeness auto
termination
  by (relation "measure (\<lambda>(v, i, n, cob). length v - i)")
     (auto dest: URLEscape_step_advances)

declare URLEscape_loop.simps [simp del]

definition URLEscape_cob ::
  "(byte list \<Rightarrow> byte list option) \<Rightarrow> byte list \<Rightarrow> bool \<Rightarrow> CopyOnWriteBuffer option" where
  "URLEscape_cob lookup v0 resolveReference =
     do {
       v \<leftarrow> (if resolveReference then
               do {
                 v1 \<leftarrow> UnescapePunctuations v0;
                 v2 \<leftarrow> ResolveNumericReferences v1;
                 ResolveEntityNames lookup v2
               }
             else Some v0);
       (n, cob) \<leftarrow> URLEscape_loop v 0 0 (NewCopyOnWriteBuffer v);
       if IsCopied cob \<and> n < length v then do { s \<leftarrow> slice_from v n; Some (Write cob s) }
       else Some cob
     }"

definition URLEscape ::
  "(byte list \<Rightarrow> byte list option) \<Rightarrow> byte list \<Rightarrow> bool \<Rightarrow> byte list option" where
  "URLEscape lookup v resolveReference = map_option Bytes (URLEscape_cob lookup v resolveReference)"

section \<open>DoFullUnicodeCaseFolding\<close>

text \<open>
  The table \<open>unicodeCaseFoldings\<close> is in a file that is not part of the sources at hand, so
  it is a parameter: a partial map from a rune to the runes it folds to.
\<close>

lemma DecodeRune_size_pos: "(r, len) = DecodeRune p \<Longrightarrow> p \<noteq> [] \<longrightarrow> 0 < len"
  by (cases p) (auto simp: DecodeRune_def Let_def split: option.splits prod.splits if_splits)

function DoFullUnicodeCaseFolding_loop ::
  "(int \<Rightarrow> int list option) \<Rightarrow> byte list \<Rightarrow> nat \<Rightarrow> nat \<Rightarrow> CopyOnWriteBuffer
     \<Rightarrow> (nat \<times> CopyOnWriteBuffer) option" where
  "DoFullUnicodeCaseFolding_loop unicodeCaseFoldings v i n cob =
     (if i < length v then
        do {
          c \<leftarrow> index v i;
          if c < 0xb5 then
            (if 0x41 \<le> c \<and> c \<le> 0x5a then
               do {
                 s \<leftarrow> slice v n i;
                 DoFullUnicodeCaseFolding_loop unicodeCaseFoldings v (i + 1) (i + 1)
                   (WriteByte (Write cob s) (c + 32))
               }
             else DoFullUnicodeCaseFolding_loop unicodeCaseFoldings v (i + 1) n cob)
          else if \<not> RuneStart c then
            DoFullUnicodeCaseFolding_loop unicodeCaseFoldings v (i + 1) n cob
          else
            do {
              p \<leftarrow> slice_from v i;
              case DecodeRune p of
                (r, len) \<Rightarrow>
                  if r = RuneError then
                    DoFullUnicodeCaseFolding_loop unicodeCaseFoldings v (i + 1) n cob
                  else
                    (case unicodeCaseFoldings r of
                       None \<Rightarrow> DoFullUnicodeCaseFolding_loop unicodeCaseFoldings v (i + 1) n cob
                     | Some folded \<Rightarrow>
                         do {
                           s \<leftarrow> slice v n i;
                           let cob = fold (\<lambda>f cob. Write cob (EncodeRune f)) folded (Write cob s);
                           let i1 = i + len - 1;
                           DoFullUnicodeCaseFolding_loop unicodeCaseFoldings v (i1 + 1) (i1 + 1) cob
                         })
            }
        }
      else Some (n, cob))"
  by pat_completeness auto
termination
proof (relation "measure (\<lambda>(t, v, i, n, cob). length v - i)", goal_cases)
  case 7
  then show ?case
    by (auto simp: slice_from_def slice_def split: if_splits dest!: DecodeRune_size_pos)
qed simp_all

declare DoFullUnicodeCaseFolding_loop.simps [simp del]

definition DoFullUnicodeCaseFolding_cob ::
  "(int \<Rightarrow> int list option) \<Rightarrow> byte list \<Rightarrow> CopyOnWriteBuffer option" where
  "DoFullUnicodeCaseFolding_cob unicodeCaseFoldings v =
     do {
       (n, cob) \<leftarrow> DoFullUnicodeCaseFolding_loop unicodeCaseFoldings v 0 0 (NewCopyOnWriteBuffer v);
       if IsCopied cob then do { s \<leftarrow> slice_from v n; Some (Write cob s) } else Some cob
     }"

definition DoFullUnicodeCaseFolding ::
  "(int \<Rightarrow> int list option) \<Rightarrow> byte list \<Rightarrow> byte list option" where
  "DoFullUnicodeCaseFolding unicodeCaseFoldings v =
     map_option Bytes (DoFullUnicodeCaseFolding_cob unicodeCaseFoldings v)"


section \<open>BytesFilter\<close>

text \<open>
  A bucket is a \<open>[][]byte\<close> slice: a header (array, length, capacity) over a backing
  array that other headers may share. The heap is the list of the backing arrays ever
  allocated, each as long as its capacity; a header names its array by its index in the
  heap, \<open>None\<close> for a nil or zero-capacity slice. The byte sequences stored in the arrays
  are values. \<open>elements\<close> is what a header shows: the first \<open>len\<close> cells of its array.
\<close>

record slice_hdr =
  slice_ptr :: "nat option"
  slice_len :: nat
  slice_cap :: nat

type_synonym heap = "byte list list list"

definition nil_slice :: slice_hdr where
  "nil_slice = \<lparr>slice_ptr = None, slice_len = 0, slice_cap = 0\<rparr>"

definition elements :: "heap \<Rightarrow> slice_hdr \<Rightarrow> byte list list" where
  "elements H s = (case slice_ptr s of None \<Rightarrow> [] | Some p \<Rightarrow> take (slice_len s) (H ! p))"

text \<open>
  \<open>append(slot, b)\<close>. With room left in the backing array the element is written in
  place, at index \<open>len\<close>, and the array stays shared; otherwise a new array is allocated
  and the elements are copied. The capacity of the new array is the runtime's choice,
  the parameter \<open>grow\<close> applied to the old capacity. \<open>go_growcap\<close> is what Go's runtime
  chooses for these arrays while they are shorter than 256 elements: 1, 2, 4, 8, ...
\<close>

definition append1 ::
  "(nat \<Rightarrow> nat) \<Rightarrow> heap \<Rightarrow> slice_hdr \<Rightarrow> byte list \<Rightarrow> heap \<times> slice_hdr" where
  "append1 grow H s b =
     (let realloc =
            (let c = grow (slice_cap s)
             in (H @ [elements H s @ [b] @ replicate (c - slice_len s - 1) []],
                 \<lparr>slice_ptr = Some (length H), slice_len = slice_len s + 1, slice_cap = c\<rparr>))
      in case slice_ptr s of
           None \<Rightarrow> realloc
         | Some p \<Rightarrow>
             if slice_len s < slice_cap s
             then (H[p := (H ! p)[slice_len s := b]], s\<lparr>slice_len := slice_len s + 1\<rparr>)
             else realloc)"

definition go_growcap :: "nat \<Rightarrow> nat" where
  "go_growcap oldCap =
     (if oldCap = 0 then 1 else if oldCap < 256 then oldCap + oldCap
      else oldCap + (oldCap + 768) div 4)"

definition bytesHash :: "byte list \<Rightarrow> 64 word" where
  "bytesHash b = fold (\<lambda>c hash. (push_bit 5 hash + hash) + ucast c) b 5381"

record bytesFilter =
  chars :: "byte \<Rightarrow> byte"
  threshold :: int
  slots :: "slice_hdr list"

text \<open>
  The number of leading bytes that take part in the mask, and the index of the bucket.
  \<open>1 << uint8(i)\<close> is an 8-bit value, \<open>push_bit (i mod 256) 1\<close>.
\<close>

definition prefix_len :: "bytesFilter \<Rightarrow> byte list \<Rightarrow> nat" where
  "prefix_len s b =
     (let l = int (length b); m = threshold s in nat (if l < threshold s then l else m))"

definition slot_index :: "bytesFilter \<Rightarrow> byte list \<Rightarrow> nat" where
  "slot_index s b = unat (bytesHash b mod of_nat (length (slots s)))"

text \<open>
  \<open>Add\<close>, \<open>Extend\<close> and \<open>Contains\<close> take the heap and the filter and return the new heap
  and the filter as the method leaves it. \<open>None\<close> is a run-time panic: the division by
  zero of the hash by the number of buckets, or an index out of range.
\<close>

definition Add ::
  "(nat \<Rightarrow> nat) \<Rightarrow> heap \<Rightarrow> bytesFilter \<Rightarrow> byte list \<Rightarrow> (heap \<times> bytesFilter) option" where
  "Add grow H s b =
     (let chars1 = fold (\<lambda>i ch. ch(b ! i := ch (b ! i) OR push_bit (i mod 256) 1))
                     [0..<prefix_len s b] (chars s)
      in if length (slots s) = 0 then None
         else
           let h = slot_index s b;
               slot = slots s ! h;
               (H1, slot1) = append1 grow H slot b
           in Some (H1, s\<lparr>chars := chars1, slots := (slots s)[h := slot1]\<rparr>))"

fun Add_all ::
  "(nat \<Rightarrow> nat) \<Rightarrow> heap \<Rightarrow> bytesFilter \<Rightarrow> byte list list \<Rightarrow> (heap \<times> bytesFilter) option" where
  "Add_all grow H s [] = Some (H, s)"
| "Add_all grow H s (b # bs) =
     (case Add grow H s b of None \<Rightarrow> None | Some (H1, s1) \<Rightarrow> Add_all grow H1 s1 bs)"

definition NewBytesFilter ::
  "(nat \<Rightarrow> nat) \<Rightarrow> heap \<Rightarrow> byte list list \<Rightarrow> (heap \<times> bytesFilter) option" where
  "NewBytesFilter grow H es =
     Add_all grow H \<lparr>chars = (\<lambda>c. 0), threshold = 3, slots = replicate 64 nil_slice\<rparr> es"

text \<open>
  The loop of \<open>Extend\<close> over the buckets of the receiver. \<open>make\<close> and \<open>copy\<close> allocate a
  new array that holds the elements of \<open>v\<close>; the statement that follows stores \<open>v\<close>
  itself, not the new slice, in the new filter.
\<close>

fun Extend_slots ::
  "heap \<Rightarrow> bytesFilter \<Rightarrow> nat \<Rightarrow> slice_hdr list \<Rightarrow> (heap \<times> bytesFilter) option" where
  "Extend_slots H newFilter k [] = Some (H, newFilter)"
| "Extend_slots H newFilter k (v # vs) =
     (let H1 = H @ [elements H v] in
      if k < length (slots newFilter)
      then Extend_slots H1 (newFilter\<lparr>slots := (slots newFilter)[k := v]\<rparr>) (k + 1) vs
      else None)"

definition Extend ::
  "(nat \<Rightarrow> nat) \<Rightarrow> heap \<Rightarrow> bytesFilter \<Rightarrow> byte list list \<Rightarrow> (heap \<times> bytesFilter) option" where
  "Extend grow H s bs =
     do {
       (H0, newFilter) \<leftarrow> NewBytesFilter grow H [];
       (H1, newFilter) \<leftarrow>
         Extend_slots H0 (newFilter\<lparr>chars := chars s, threshold := threshold s\<rparr>) 0 (slots s);
       Add_all grow H1 newFilter bs
     }"

definition Contains :: "heap \<Rightarrow> bytesFilter \<Rightarrow> byte list \<Rightarrow> bool option" where
  "Contains H s b =
     (if \<not> list_all (\<lambda>i. chars s (b ! i) AND push_bit (i mod 256) 1 \<noteq> 0) [0..<prefix_len s b]
      then Some False
      else if length (slots s) = 0 then None
      else
        let h = slot_index s b; slot = slots s ! h in
        if slice_len slot = 0 then Some False
        else Some (b \<in> set (elements H slot)))"

section \<open>Properties of the copy-on-write buffer\<close>

lemma cob_step_copied: "copied b \<Longrightarrow> copied (cob_step b x)"
  by (cases x)
     (simp_all add: Write_def WriteString_def WriteByte_def Append_def AppendString_def
        AppendByte_def Let_def)

lemma cob_step_borrowed:
  "\<not> copied (cob_step b x) \<Longrightarrow> cob_step b x = b"
  by (cases x)
     (auto simp: Write_def WriteString_def WriteByte_def Append_def AppendString_def
        AppendByte_def Let_def split: if_splits)

lemma cob_run_copied: "copied b \<Longrightarrow> copied (cob_run b xs)"
  by (induction xs arbitrary: b) (simp_all add: cob_step_copied)

lemma cob_run_append: "cob_run b (xs @ ys) = cob_run (cob_run b xs) ys"
  by (induction xs arbitrary: b) simp_all

lemma cob_run_borrowed: "\<not> copied (cob_run b xs) \<Longrightarrow> cob_run b xs = b"
proof (induction xs arbitrary: b)
  case Nil
  then show ?case by simp
next
  case (Cons x xs)
  from Cons.prems have nc: "\<not> copied (cob_run (cob_step b x) xs)" by simp
  have "\<not> copied (cob_step b x)"
  proof
    assume "copied (cob_step b x)"
    then have "copied (cob_run (cob_step b x) xs)" by (rule cob_run_copied)
    with nc show False by simp
  qed
  then have "cob_step b x = b" by (rule cob_step_borrowed)
  moreover from Cons.IH [OF nc] have "cob_run (cob_step b x) xs = cob_step b x" .
  ultimately show ?case by simp
qed

text \<open>
  Claim C8. For every buffer created over an input \<open>v\<close> and every sequence of calls of its
  methods: once \<open>IsCopied\<close> has returned true (after the calls \<open>xs\<close>) it returns true after
  any further calls \<open>ys\<close>; and as long as it returns false, \<open>Bytes\<close> is the input \<open>v\<close>.
\<close>

theorem cob_copied_monotone_and_borrowed_view:
  "(IsCopied (cob_run (NewCopyOnWriteBuffer v) xs) \<longrightarrow>
      IsCopied (cob_run (NewCopyOnWriteBuffer v) (xs @ ys)))
   \<and> (\<not> IsCopied (cob_run (NewCopyOnWriteBuffer v) xs) \<longrightarrow>
      Bytes (cob_run (NewCopyOnWriteBuffer v) xs) = v)"
proof (intro conjI impI)
  assume "IsCopied (cob_run (NewCopyOnWriteBuffer v) xs)"
  then show "IsCopied (cob_run (NewCopyOnWriteBuffer v) (xs @ ys))"
    by (simp add: IsCopied_def cob_run_append cob_run_copied)
next
  assume "\<not> IsCopied (cob_run (NewCopyOnWriteBuffer v) xs)"
  then have "cob_run (NewCopyOnWriteBuffer v) xs = NewCopyOnWriteBuffer v"
    by (simp add: IsCopied_def cob_run_borrowed)
  then show "Bytes (cob_run (NewCopyOnWriteBuffer v) xs) = v"
    by (simp add: Bytes_def NewCopyOnWriteBuffer_def)
qed

theorem cob_copied_monotone_and_borrowed_view_witness:
  "IsCopied (cob_run (NewCopyOnWriteBuffer (bytes ''ab'')) [OpIsCopied, OpWrite (bytes ''c'')])
   \<and> IsCopied (cob_run (NewCopyOnWriteBuffer (bytes ''ab''))
        ([OpIsCopied, OpWrite (bytes ''c'')] @ [OpBytes, OpAppendByte 100, OpIsCopied]))
   \<and> \<not> IsCopied (cob_run (NewCopyOnWriteBuffer (bytes ''ab'')) [OpBytes, OpIsCopied])
   \<and> Bytes (cob_run (NewCopyOnWriteBuffer (bytes ''ab'')) [OpBytes, OpIsCopied]) = bytes ''ab''"
proof -
  have a: "IsCopied (cob_run (NewCopyOnWriteBuffer (bytes ''ab'')) [OpIsCopied, OpWrite (bytes ''c'')])"
    by (simp add: IsCopied_def NewCopyOnWriteBuffer_def Write_def)
  have b: "\<not> IsCopied (cob_run (NewCopyOnWriteBuffer (bytes ''ab'')) [OpBytes, OpIsCopied])"
    by (simp add: IsCopied_def NewCopyOnWriteBuffer_def)
  from a b
    cob_copied_monotone_and_borrowed_view
      [of "bytes ''ab''" "[OpIsCopied, OpWrite (bytes ''c'')]" "[OpBytes, OpAppendByte 100, OpIsCopied]"]
    cob_copied_monotone_and_borrowed_view [of "bytes ''ab''" "[OpBytes, OpIsCopied]" "[]"]
  show ?thesis by blast
qed

section \<open>Facts shared by the scanners\<close>

text \<open>
  \<open>flushed v n cob\<close> is what a scanner returns when its loop ends with the cursor \<open>n\<close>
  and the buffer \<open>cob\<close>: the buffer followed by the unflushed rest of the input when the
  buffer was materialised, the buffer alone otherwise.
\<close>

definition flushed :: "byte list \<Rightarrow> nat \<Rightarrow> CopyOnWriteBuffer \<Rightarrow> byte list" where
  "flushed v n cob = (if copied cob then buffer cob @ drop n v else buffer cob)"

lemma index_Some [simp]: "i < length s \<Longrightarrow> index s i = Some (s ! i)"
  by (simp add: index_def)

lemma slice_Some [simp]:
  "lo \<le> hi \<Longrightarrow> hi \<le> length s \<Longrightarrow> slice s lo hi = Some (take (hi - lo) (drop lo s))"
  by (simp add: slice_def)

lemma slice_from_Some [simp]: "lo \<le> length s \<Longrightarrow> slice_from s lo = Some (drop lo s)"
  by (simp add: slice_from_def)

lemma copied_Write [simp]: "copied (Write cob s)"
  by (simp add: Write_def Let_def)

lemma buffer_Write [simp]: "buffer (Write cob s) = (if copied cob then buffer cob else []) @ s"
  by (simp add: Write_def Let_def)

lemma copied_WriteByte [simp]: "copied (WriteByte cob c)"
  by (simp add: WriteByte_def Let_def)

lemma buffer_WriteByte [simp]:
  "buffer (WriteByte cob c) = (if copied cob then buffer cob else []) @ [c]"
  by (simp add: WriteByte_def Let_def)

lemma take_span_Suc:
  "n \<le> i \<Longrightarrow> i < length v \<Longrightarrow> take (Suc i - n) (drop n v) = take (i - n) (drop n v) @ [v ! i]"
  by (simp add: Suc_diff_le take_Suc_conv_app_nth)

section \<open>UnescapePunctuations against its specification\<close>

text \<open>
  The specification, in the words of the spec: scanning from the left, a backslash that is
  immediately followed by a punctuation byte is replaced, together with that byte, by the
  punctuation byte alone; any other byte is copied, and so is a backslash at the end of
  the input.
\<close>

fun UnescapePunctuations_spec :: "byte list \<Rightarrow> byte list" where
  "UnescapePunctuations_spec (c # d # rest) =
     (if c = 92 \<and> IsPunct d then d # UnescapePunctuations_spec rest
      else c # UnescapePunctuations_spec (d # rest))"
| "UnescapePunctuations_spec [c] = [c]"
| "UnescapePunctuations_spec [] = []"

lemma spec_step_plain:
  "i < length v \<Longrightarrow> \<not> (Suc i < length v \<and> v ! i = 92 \<and> IsPunct (v ! Suc i)) \<Longrightarrow>
   UnescapePunctuations_spec (drop i v) = v ! i # UnescapePunctuations_spec (drop (Suc i) v)"
proof -
  assume a: "i < length v" and b: "\<not> (Suc i < length v \<and> v ! i = 92 \<and> IsPunct (v ! Suc i))"
  have d: "drop i v = v ! i # drop (Suc i) v" using a by (simp add: Cons_nth_drop_Suc)
  show ?thesis
  proof (cases "Suc i < length v")
    case True
    then have "drop (Suc i) v = v ! Suc i # drop (Suc (Suc i)) v" by (simp add: Cons_nth_drop_Suc)
    with d b True show ?thesis by auto
  next
    case False
    then have "drop (Suc i) v = []" by simp
    with d show ?thesis by simp
  qed
qed

lemma spec_step_escape:
  "Suc i < length v \<Longrightarrow> v ! i = 92 \<Longrightarrow> IsPunct (v ! Suc i) \<Longrightarrow>
   UnescapePunctuations_spec (drop i v) = v ! Suc i # UnescapePunctuations_spec (drop (Suc (Suc i)) v)"
proof -
  assume a: "Suc i < length v" and b: "v ! i = 92" "IsPunct (v ! Suc i)"
  have "drop i v = v ! i # v ! Suc i # drop (Suc (Suc i)) v"
    using a by (simp add: Cons_nth_drop_Suc)
  with b show ?thesis by simp
qed

lemma UnescapePunctuations_loop_spec:
  "n \<le> i \<Longrightarrow> i \<le> length v \<Longrightarrow> (\<not> copied cob \<Longrightarrow> n = 0 \<and> buffer cob = v) \<Longrightarrow>
   \<exists>n' cob'. UnescapePunctuations_loop v i n cob = Some (n', cob') \<and> n' \<le> length v
     \<and> flushed v n' cob' = (if copied cob then buffer cob else []) @ take (i - n) (drop n v)
          @ UnescapePunctuations_spec (drop i v)"
proof (induction "length v - i" arbitrary: i n cob rule: less_induct)
  case less
  show ?case
  proof (cases "i < length v")
    case False
    with less.prems have "i = length v" by simp
    then show ?thesis using less.prems
      by (subst UnescapePunctuations_loop.simps) (auto simp: flushed_def)
  next
    case True
    show ?thesis
    proof (cases "Suc i < length v \<and> v ! i = 92 \<and> IsPunct (v ! Suc i)")
      case esc: True
      let ?cob = "WriteByte (Write cob (take (i - n) (drop n v))) (v ! Suc i)"
      have step: "UnescapePunctuations_loop v i n cob = UnescapePunctuations_loop v (i + 2) (i + 2) ?cob"
        using True esc less.prems by (subst UnescapePunctuations_loop.simps) (simp add: Let_def)
      have "\<exists>n' cob'. UnescapePunctuations_loop v (i + 2) (i + 2) ?cob = Some (n', cob') \<and> n' \<le> length v
        \<and> flushed v n' cob' = (if copied ?cob then buffer ?cob else []) @ take (i + 2 - (i + 2)) (drop (i + 2) v)
          @ UnescapePunctuations_spec (drop (i + 2) v)"
        using esc by (intro less.hyps) auto
      then show ?thesis unfolding step using esc
        by (auto simp: spec_step_escape)
    next
      case plain: False
      have step: "UnescapePunctuations_loop v i n cob = UnescapePunctuations_loop v (i + 1) n cob"
        using True plain less.prems by (subst UnescapePunctuations_loop.simps) (auto simp: Let_def)
      have "\<exists>n' cob'. UnescapePunctuations_loop v (i + 1) n cob = Some (n', cob') \<and> n' \<le> length v
        \<and> flushed v n' cob' = (if copied cob then buffer cob else []) @ take (i + 1 - n) (drop n v)
          @ UnescapePunctuations_spec (drop (i + 1) v)"
        using True less.prems by (intro less.hyps) auto
      then show ?thesis unfolding step using True plain less.prems
        by (auto simp: spec_step_plain take_span_Suc)
    qed
  qed
qed

text \<open>
  Claim C7. For every input, \<open>UnescapePunctuations\<close> returns (it does not panic) and its
  result is the input in which, from left to right, every backslash immediately followed
  by a punctuation byte has been replaced, together with that byte, by the punctuation
  byte alone, all other bytes copied and a trailing backslash kept.
\<close>

theorem UnescapePunctuations_refines_spec:
  "UnescapePunctuations source = Some (UnescapePunctuations_spec source)"
proof -
  obtain n' cob' where l: "UnescapePunctuations_loop source 0 0 (NewCopyOnWriteBuffer source) = Some (n', cob')"
    and n': "n' \<le> length source"
    and f: "flushed source n' cob' = UnescapePunctuations_spec source"
    using UnescapePunctuations_loop_spec [of 0 0 source "NewCopyOnWriteBuffer source"]
    by (auto simp: NewCopyOnWriteBuffer_def)
  show ?thesis
    using l n' f
    by (cases "copied cob'")
       (simp_all add: UnescapePunctuations_def UnescapePunctuations_cob_def IsCopied_def
          Bytes_def flushed_def)
qed

theorem UnescapePunctuations_refines_spec_witness:
  "UnescapePunctuations [97, 92, 42, 98, 92, 99, 92, 92, 33, 92] = Some [97, 42, 98, 92, 99, 92, 33, 92]"
  using UnescapePunctuations_refines_spec [of "[97, 92, 42, 98, 92, 99, 92, 92, 33, 92]"]
  by (simp add: IsPunct_def punctTable_def nth_append)

section \<open>ResolveNumericReferences on the boundary inputs\<close>

text \<open>
  Evaluation of a scanner on a concrete input: the definitions to unfold, with a weak
  congruence rule for \<open>bind\<close> so that a continuation is only simplified once its argument
  is known.
\<close>

lemma option_bind_weak_cong: "m = m' \<Longrightarrow> Option.bind m f = Option.bind m' f"
  by simp

lemmas scan_eval =
  bytes_def index_def slice_def slice_from_def NewCopyOnWriteBuffer_def IsCopied_def Bytes_def
  Write_def WriteByte_def Let_def ReadWhile_def ReadWhile_loop.simps
  IsNumeric_def IsHexDecimal_def IsAlphaNumeric_def

lemmas rune_eval =
  EncodeRune_def EncodeRune3_def ToValidRune_def ValidRune_def RuneError_def rune_of_uint64_def
  ParseUint_def lower_def

lemmas numeric_eval =
  ResolveNumericReferences_def ResolveNumericReferences_cob_def
  ResolveNumericReferences_loop.simps ResolveNumericReferences_match_def

text \<open>
  Claim C3. \<open>&#9731;\<close> and \<open>&#x2603;\<close> resolve to the UTF-8 encoding of U+2603, the bytes
  E2 98 83; \<open>&#99999999;\<close>, with eight digits, is returned as it is, in the input slice
  itself; \<open>&#0;\<close> resolves to the encoding of U+FFFD, the bytes EF BF BD.
\<close>

theorem ResolveNumericReferences_boundary_examples:
  "ResolveNumericReferences (bytes ''&#9731;'') = Some (EncodeRune 0x2603)
   \<and> ResolveNumericReferences (bytes ''&#x2603;'') = Some (EncodeRune 0x2603)
   \<and> EncodeRune 0x2603 = [0xE2, 0x98, 0x83]
   \<and> ResolveNumericReferences_cob (bytes ''&#99999999;'')
       = Some \<lparr>buffer = bytes ''&#99999999;'', copied = False\<rparr>
   \<and> ResolveNumericReferences (bytes ''&#99999999;'') = Some (bytes ''&#99999999;'')
   \<and> ResolveNumericReferences (bytes ''&#0;'') = Some (EncodeRune 0xFFFD)
   \<and> EncodeRune 0xFFFD = [0xEF, 0xBF, 0xBD]"
proof (intro conjI)
  show "ResolveNumericReferences (bytes ''&#9731;'') = Some (EncodeRune 0x2603)"
    by (simp add: numeric_eval scan_eval rune_eval cong: option_bind_weak_cong)
  show "ResolveNumericReferences (bytes ''&#x2603;'') = Some (EncodeRune 0x2603)"
    by (simp add: numeric_eval scan_eval rune_eval cong: option_bind_weak_cong)
  show "EncodeRune 0x2603 = [0xE2, 0x98, 0x83]"
    by (simp add: rune_eval)
  show "ResolveNumericReferences_cob (bytes ''&#99999999;'')
       = Some \<lparr>buffer = bytes ''&#99999999;'', copied = False\<rparr>"
    by (simp add: numeric_eval scan_eval rune_eval cong: option_bind_weak_cong)
  show "ResolveNumericReferences (bytes ''&#99999999;'') = Some (bytes ''&#99999999;'')"
    by (simp add: numeric_eval scan_eval rune_eval cong: option_bind_weak_cong)
  show "ResolveNumericReferences (bytes ''&#0;'') = Some (EncodeRune 0xFFFD)"
    by (simp add: numeric_eval scan_eval rune_eval cong: option_bind_weak_cong)
  show "EncodeRune 0xFFFD = [0xEF, 0xBF, 0xBD]"
    by (simp add: rune_eval)
qed

section \<open>Leading zeros in decimal references\<close>

text \<open>
  The value of a run of octal digits that follows the digits already read as \<open>n\<close>.
\<close>

definition octal_value :: "nat \<Rightarrow> byte list \<Rightarrow> nat" where
  "octal_value n ds = foldl (\<lambda>n c. n * 8 + unat (c - 48)) n ds"

lemma ReadWhile_loop_run:
  "list_all pred run \<Longrightarrow> \<not> pred t \<Longrightarrow> length pre + length run < hi \<Longrightarrow>
   ReadWhile_loop (pre @ run @ t # post) (length pre) hi pred ok
     = Some (length pre + length run, ok \<or> run \<noteq> [])"
proof (induction run arbitrary: pre ok)
  case Nil
  then show ?case
    by (subst ReadWhile_loop.simps) (simp add: index_def)
next
  case (Cons c run)
  have "ReadWhile_loop (pre @ (c # run) @ t # post) (length pre) hi pred ok
      = ReadWhile_loop ((pre @ [c]) @ run @ t # post) (length (pre @ [c])) hi pred True"
    using Cons.prems by (subst ReadWhile_loop.simps) (simp add: index_def nth_append)
  also have "\<dots> = Some (length (pre @ [c]) + length run, True \<or> run \<noteq> [])"
    using Cons.prems by (intro Cons.IH) simp_all
  finally show ?case by simp
qed

lemma digit_unat: "IsNumeric c \<Longrightarrow> unat (c - 48) = unat c - 48 \<and> 48 \<le> unat c \<and> unat c \<le> 57"
  unfolding IsNumeric_def word_le_nat_alt
  by (simp add: unat_sub word_le_nat_alt)

lemma ParseUint_digits_octal:
  "list_all IsNumeric ds \<Longrightarrow> n < 8 ^ m \<Longrightarrow> m + length ds \<le> 6 \<Longrightarrow>
   ParseUint_digits 8 ((2 ^ 64 - 1) div 8 + 1) (2 ^ 32 - 1) n ds
     = (if list_all (\<lambda>c. c \<le> 55) ds then (octal_value n ds, None) else (0, Some ErrSyntax))"
proof (induction ds arbitrary: n m)
  case Nil
  then show ?case by (simp add: octal_value_def)
next
  case (Cons c ds)
  from Cons.prems have num: "IsNumeric c" and m: "m < 6" by simp_all
  from num have c: "48 \<le> c" "c \<le> 57" by (simp_all add: IsNumeric_def)
  have du: "unat (c - 48) = unat c - 48" "48 \<le> unat c" "unat c \<le> 57"
    using digit_unat [OF num] by simp_all
  have "(8::nat) ^ m \<le> 8 ^ 5" using m by (intro power_increasing) simp_all
  with Cons.prems have n: "n < 32768" by simp
  show ?case
  proof (cases "c \<le> 55")
    case False
    then have "8 \<le> unat (c - 48)" using du by (simp add: word_le_nat_alt)
    with c False show ?thesis by simp
  next
    case True
    then have d: "unat (c - 48) < 8" using du by (simp add: word_le_nat_alt)
    have n1: "n * 8 + unat (c - 48) < 8 ^ Suc m"
    proof -
      from Cons.prems have "Suc n \<le> 8 ^ m" by simp
      then have "Suc n * 8 \<le> 8 ^ m * 8" by (rule mult_le_mono1)
      with d show ?thesis by simp
    qed
    have ih: "ParseUint_digits 8 ((2 ^ 64 - 1) div 8 + 1) (2 ^ 32 - 1) (n * 8 + unat (c - 48)) ds
      = (if list_all (\<lambda>c. c \<le> 55) ds then (octal_value (n * 8 + unat (c - 48)) ds, None)
         else (0, Some ErrSyntax))"
      using Cons.prems n1 by (intro Cons.IH [of _ "Suc m"]) simp_all
    show ?thesis
      using c True d n ih by (simp add: octal_value_def Let_def)
  qed
qed

lemma lower_digit: "IsNumeric c \<Longrightarrow> lower c = c"
proof -
  assume "IsNumeric c"
  then have "48 \<le> unat c \<and> unat c \<le> 57" using digit_unat by blast
  then have "unat c = 48 \<or> unat c = 49 \<or> unat c = 50 \<or> unat c = 51 \<or> unat c = 52
     \<or> unat c = 53 \<or> unat c = 54 \<or> unat c = 55 \<or> unat c = 56 \<or> unat c = 57" by arith
  then have "c \<in> {48, 49, 50, 51, 52, 53, 54, 55, 56, 57}"
    by (simp add: word_unat_eq_iff)
  then show ?thesis by (auto simp: lower_def)
qed

lemma ParseUint_leading_zero:
  "list_all IsNumeric ds \<Longrightarrow> length ds \<le> 6 \<Longrightarrow>
   ParseUint (48 # ds) 0 32
     = (if list_all (\<lambda>c. c \<le> 55) ds then (octal_value 0 ds, None) else (0, Some ErrSyntax))"
proof -
  assume ds: "list_all IsNumeric ds" and len: "length ds \<le> 6"
  have nolet: "\<not> (3 \<le> length (48 # ds) \<and> lower ((48 # ds) ! 1) = x)" if "x \<in> {98, 111, 120}" for x
  proof (cases ds)
    case Nil
    then show ?thesis by simp
  next
    case (Cons c cs)
    with ds have "IsNumeric c" by simp
    then have "lower c = c" "c \<le> 57" by (simp_all add: lower_digit IsNumeric_def)
    with that Cons show ?thesis by auto
  qed
  have "ParseUint (48 # ds) 0 32 = ParseUint_digits 8 ((2 ^ 64 - 1) div 8 + 1) (2 ^ 32 - 1) 0 ds"
    using nolet [of 98] nolet [of 111] nolet [of 120]
    by (auto simp: ParseUint_def simp del: ParseUint_digits.simps)
  also have "\<dots> = (if list_all (\<lambda>c. c \<le> 55) ds then (octal_value 0 ds, None) else (0, Some ErrSyntax))"
    using ds len by (intro ParseUint_digits_octal [of _ _ 0]) simp_all
  finally show ?thesis .
qed

lemma octal_value_bound:
  "list_all IsNumeric ds \<Longrightarrow> list_all (\<lambda>c. c \<le> 55) ds \<Longrightarrow> n < 8 ^ m \<Longrightarrow>
   octal_value n ds < 8 ^ (m + length ds)"
proof (induction ds arbitrary: n m)
  case Nil
  then show ?case by (simp add: octal_value_def)
next
  case (Cons c ds)
  from Cons.prems have num: "IsNumeric c" and c: "c \<le> 55" by simp_all
  have d: "unat (c - 48) < 8" using digit_unat [OF num] c by (simp add: word_le_nat_alt)
  have n1: "n * 8 + unat (c - 48) < 8 ^ Suc m"
  proof -
    from Cons.prems have "Suc n \<le> 8 ^ m" by simp
    then have "Suc n * 8 \<le> 8 ^ m * 8" by (rule mult_le_mono1)
    with d show ?thesis by simp
  qed
  have "octal_value (n * 8 + unat (c - 48)) ds < 8 ^ (Suc m + length ds)"
    using Cons.prems n1 by (intro Cons.IH) simp_all
  then show ?case by (simp add: octal_value_def)
qed

lemma ResolveNumericReferences_match_leading_zero:
  assumes ds: "list_all IsNumeric ds" and len: "length ds \<le> 6"
  shows "ResolveNumericReferences_match ([38, 35, 48] @ ds @ [59]) 0 0 cob
     = Some (Some (3 + length ds, 4 + length ds,
         Write (Write cob [])
           (EncodeRune (ToValidRune (rune_of_uint64 (fst (ParseUint (48 # ds) 0 32)))))))"
proof -
  let ?src = "[38, 35, 48] @ ds @ [59]"
  have run: "list_all IsNumeric (48 # ds)" using ds by (simp add: IsNumeric_def)
  have stop: "\<not> IsNumeric 59" by (simp add: IsNumeric_def)
  have "ReadWhile_loop ([38, 35] @ (48 # ds) @ 59 # []) (length [38, 35 :: byte]) (length ?src)
          IsNumeric False
        = Some (length [38, 35 :: byte] + length (48 # ds), False \<or> 48 # ds \<noteq> [])"
    using run stop by (rule ReadWhile_loop_run) simp
  then have rw: "ReadWhile ?src (0 + 1 + 1, length ?src) IsNumeric = Some (3 + length ds, True)"
    by (simp add: ReadWhile_def)
  have semi: "index ?src (3 + length ds) = Some 59"
    by (simp add: index_def nth_append)
  have digits: "slice ?src (0 + 1 + 1) (3 + length ds) = Some (48 # ds)"
    by (simp add: slice_def)
  have i1: "index ?src (0 + 1) = Some 35" and i2: "index ?src (0 + 1 + 1) = Some 48"
    by (simp_all add: index_def)
  have s0: "slice ?src 0 0 = Some []" by (simp add: slice_def)
  have cmp: "0 + 1 < length ?src" "0 + 1 + 1 < length ?src" "3 + length ds < length ?src"
    "int (3 + length ds) - int (0 + 1 + 1) < 8"
    using len by simp_all
  have nc: "\<not> ((48::byte) = 120 \<or> (48::byte) = 88)" "48 \<le> (48::byte) \<and> (48::byte) \<le> 57"
    by simp_all
  show ?thesis
    unfolding ResolveNumericReferences_match_def Let_def
    by (simp only: rw semi digits i1 i2 s0 cmp nc if_True if_False bind.bind_lunit
          split_conv option.map simp_thms)
       simp
qed

text \<open>
  Claim C10. A decimal reference whose digits begin with \<open>0\<close> is parsed in base 8: for
  every run \<open>ds\<close> of at most six further decimal digits, \<open>&#0ds;\<close> resolves to the encoding
  of the code point whose octal numeral is \<open>ds\<close> (replaced by U+FFFD when it is zero or
  not a valid rune), and to the encoding of U+FFFD when \<open>ds\<close> holds an \<open>8\<close> or a \<open>9\<close>.
\<close>

theorem ResolveNumericReferences_leading_zero_is_octal:
  assumes ds: "list_all IsNumeric ds" and len: "length ds \<le> 6"
  shows "ResolveNumericReferences (bytes ''&#0'' @ ds @ bytes '';'')
     = Some (if list_all (\<lambda>c. c \<le> 55) ds
             then EncodeRune (ToValidRune (int (octal_value 0 ds)))
             else EncodeRune 0xFFFD)"
proof -
  let ?src = "[38, 35, 48] @ ds @ [59]"
  let ?cob = "NewCopyOnWriteBuffer ?src"
  let ?enc = "EncodeRune (ToValidRune (rune_of_uint64 (fst (ParseUint (48 # ds) 0 32))))"
  have src: "bytes ''&#0'' @ ds @ bytes '';'' = ?src" by (simp add: bytes_def)
  have m: "ResolveNumericReferences_match ?src 0 0 ?cob
     = Some (Some (3 + length ds, 4 + length ds, Write (Write ?cob []) ?enc))"
    using ds len by (rule ResolveNumericReferences_match_leading_zero)
  have stop: "ResolveNumericReferences_loop ?src (4 + length ds) (4 + length ds) (Write (Write ?cob []) ?enc)
     = Some (4 + length ds, Write (Write ?cob []) ?enc)"
    by (subst ResolveNumericReferences_loop.simps) simp
  have loop: "ResolveNumericReferences_loop ?src 0 0 ?cob
     = Some (4 + length ds, Write (Write ?cob []) ?enc)"
    using m stop by (subst ResolveNumericReferences_loop.simps) (simp add: index_def)
  have res: "ResolveNumericReferences ?src = Some ?enc"
    using loop
    by (simp add: ResolveNumericReferences_def ResolveNumericReferences_cob_def
        IsCopied_def Bytes_def slice_from_def slice_def NewCopyOnWriteBuffer_def Write_def)
  have enc: "?enc = (if list_all (\<lambda>c. c \<le> 55) ds
             then EncodeRune (ToValidRune (int (octal_value 0 ds)))
             else EncodeRune 0xFFFD)"
  proof (cases "list_all (\<lambda>c. c \<le> 55) ds")
    case True
    have "octal_value 0 ds < 8 ^ (0 + length ds)"
      using ds True by (intro octal_value_bound) simp_all
    also have "(8::nat) ^ (0 + length ds) \<le> 8 ^ 6" using len by (intro power_increasing) simp_all
    finally have "octal_value 0 ds < 2147483648" by simp
    then have "rune_of_uint64 (octal_value 0 ds) = int (octal_value 0 ds)"
      by (simp add: rune_of_uint64_def)
    with True show ?thesis by (simp add: ParseUint_leading_zero [OF ds len])
  next
    case False
    then show ?thesis
      by (simp add: ParseUint_leading_zero [OF ds len] rune_of_uint64_def ToValidRune_def)
  qed
  show ?thesis unfolding src res enc ..
qed

theorem ResolveNumericReferences_leading_zero_is_octal_witness:
  "ResolveNumericReferences (bytes ''&#010;'') = Some [8]
   \<and> ResolveNumericReferences (bytes ''&#08;'') = Some [0xEF, 0xBF, 0xBD]
   \<and> ResolveNumericReferences (bytes ''&#0109;'') = Some (EncodeRune 0xFFFD)
   \<and> ResolveNumericReferences (bytes ''&#010;'') \<noteq> Some (EncodeRune 10)"
proof -
  have a: "ResolveNumericReferences (bytes ''&#010;'') = Some [8]"
    using ResolveNumericReferences_leading_zero_is_octal [of "bytes ''10''"]
    by (simp add: bytes_def IsNumeric_def octal_value_def EncodeRune_def ToValidRune_def ValidRune_def)
  have b: "ResolveNumericReferences (bytes ''&#08;'') = Some [0xEF, 0xBF, 0xBD]"
    using ResolveNumericReferences_leading_zero_is_octal [of "bytes ''8''"]
    by (simp add: bytes_def IsNumeric_def EncodeRune_def EncodeRune3_def RuneError_def)
  have c: "ResolveNumericReferences (bytes ''&#0109;'') = Some (EncodeRune 0xFFFD)"
    using ResolveNumericReferences_leading_zero_is_octal [of "bytes ''109''"]
    by (simp add: bytes_def IsNumeric_def)
  have d: "EncodeRune 10 \<noteq> [8]" by (simp add: EncodeRune_def)
  from a b c d show ?thesis by simp
qed


section \<open>URLEscape: bytes that pass through\<close>

text \<open>
  A byte \<open>passes\<close> when the loop of \<open>URLEscape\<close> steps over it without writing: it is
  URL-safe, or it is marked 99 in \<open>utf8lenTable\<close> (it cannot start a UTF-8 sequence).
  \<open>no_entities\<close> is the lookup of an entity table without entries.
\<close>

definition passes :: "byte \<Rightarrow> bool" where
  "passes c = (urlEscapeTable ! unat c = 1 \<or> utf8lenTable ! unat c = 99)"

definition no_entities :: "byte list \<Rightarrow> byte list option" where
  "no_entities name = None"

lemma utf8lenTable_lead:
  "n < 256 \<Longrightarrow> utf8lenTable ! n = 2 \<or> utf8lenTable ! n = 3 \<or> utf8lenTable ! n = 4 \<Longrightarrow> 194 \<le> n"
  by (simp add: utf8lenTable_def nth_append split: if_splits)

lemma urlEscapeTable_high: "127 \<le> n \<Longrightarrow> n < 256 \<Longrightarrow> urlEscapeTable ! n = 0"
proof -
  assume a: "127 \<le> n" "n < 256"
  have "urlEscapeTable = take 127 urlEscapeTable @ replicate 129 0"
    by (simp add: urlEscapeTable_def)
  moreover have "length (take 127 urlEscapeTable) = 127" by (simp add: urlEscapeTable_def)
  ultimately have "urlEscapeTable ! n = replicate 129 0 ! (n - 127)"
    using a by (metis nth_append not_less)
  with a show ?thesis by simp
qed

lemma lead_byte:
  assumes "UTF8Len c = 2 \<or> UTF8Len c = 3 \<or> UTF8Len c = 4"
  shows "urlEscapeTable ! unat c = 0" "c \<noteq> 37" "c \<noteq> 32"
proof -
  have lt: "unat c < 256" using unsigned_less [of c, where 'a = nat] by simp
  from utf8lenTable_lead [OF lt] assms have ge: "194 \<le> unat c" by (simp add: UTF8Len_def)
  from ge lt show "urlEscapeTable ! unat c = 0" by (intro urlEscapeTable_high) simp_all
  from ge show "c \<noteq> 37" "c \<noteq> 32" by auto
qed

lemma percent_table:
  "urlEscapeTable ! unat (37 :: byte) = 0" "utf8lenTable ! unat (37 :: byte) = 1"
  "urlEscapeTable ! 37 = 0" "utf8lenTable ! 37 = 1"
  by (simp_all add: urlEscapeTable_def utf8lenTable_def nth_append)

lemma if_Some_distrib: "(if c then Some a else Some b) = Some (if c then a else b)"
  by simp

lemma URLEscape_step_eq:
  assumes a: "n \<le> i" "i < length v"
  shows "URLEscape_step v i n cob =
     Some (if urlEscapeTable ! unat (v ! i) = 1 then (i + 1, n, cob)
           else if v ! i = 37 \<and> i + 2 < length v \<and> IsHexDecimal (v ! (i + 1)) then (i + 3, n, cob)
           else if utf8lenTable ! unat (v ! i) = 99 then (i + 1, n, cob)
           else if v ! i = 32 then (i + 1, i + 1, Write (Write cob (take (i - n) (drop n v))) htmlSpace)
           else if (if utf8lenTable ! unat (v ! i) > int (length v) then int8 (int (length v) - 1)
                    else utf8lenTable ! unat (v ! i)) = 0 then (i + 1, i + 1, cob)
           else if i + nat (if utf8lenTable ! unat (v ! i) > int (length v) then int8 (int (length v) - 1)
                    else utf8lenTable ! unat (v ! i)) > length v
                then (i + 1, i + 1, Write cob (take (i - n) (drop n v)))
           else (i + nat (if utf8lenTable ! unat (v ! i) > int (length v) then int8 (int (length v) - 1)
                    else utf8lenTable ! unat (v ! i)),
                 i + nat (if utf8lenTable ! unat (v ! i) > int (length v) then int8 (int (length v) - 1)
                    else utf8lenTable ! unat (v ! i)),
                 Write (Write cob (take (i - n) (drop n v)))
                   (QueryEscape (take (nat (if utf8lenTable ! unat (v ! i) > int (length v) then int8 (int (length v) - 1)
                    else utf8lenTable ! unat (v ! i))) (drop i v)))))"
proof -
  have idx: "index v i = Some (v ! i)" using a by (simp add: index_def)
  have sl: "slice v n i = Some (take (i - n) (drop n v))" using a by (simp add: slice_def)
  have esc: "(if v ! i = 37 \<and> i + 2 < length v
                        then do {
                          h1 \<leftarrow> index v (i + 1);
                          h2 \<leftarrow> index v (i + 1);
                          Some (IsHexDecimal h1 \<and> IsHexDecimal h2)
                        }
                        else Some False) = Some (v ! i = 37 \<and> i + 2 < length v \<and> IsHexDecimal (v ! (i + 1)))"
    by (auto simp: index_def)
  have sl2: "\<And>u. \<not> i + u > length v \<Longrightarrow> slice v i (i + u) = Some (take u (drop i v))"
    by (simp add: slice_def)
  show ?thesis
    unfolding URLEscape_step_def Let_def idx bind.bind_lunit esc sl
    by (simp only: sl2 bind.bind_lunit if_Some_distrib simp_thms cong: if_cong)
qed

lemma URLEscape_loop_step:
  "n \<le> i \<Longrightarrow> i < length v \<Longrightarrow> URLEscape_step v i n cob = Some (i1, n1, cob1) \<Longrightarrow>
   URLEscape_loop v i n cob = URLEscape_loop v i1 n1 cob1"
  by (subst URLEscape_loop.simps) simp

lemma URLEscape_loop_pass_step:
  assumes "n \<le> i" "i < length v" "passes (v ! i)"
  shows "URLEscape_loop v i n cob = URLEscape_loop v (i + 1) n cob"
proof -
  have "URLEscape_step v i n cob = Some (i + 1, n, cob)"
  proof (cases "urlEscapeTable ! unat (v ! i) = 1")
    case True
    then show ?thesis by (simp add: URLEscape_step_eq [OF assms(1,2)])
  next
    case False
    with assms(3) have u: "utf8lenTable ! unat (v ! i) = 99" by (simp add: passes_def)
    then have "v ! i \<noteq> 37" using percent_table(2) by auto
    with False u show ?thesis by (simp add: URLEscape_step_eq [OF assms(1,2)])
  qed
  with assms show ?thesis by (intro URLEscape_loop_step)
qed

lemma URLEscape_loop_pass:
  "list_all passes s \<Longrightarrow> n \<le> length p \<Longrightarrow>
   URLEscape_loop (p @ s @ t) (length p) n cob = URLEscape_loop (p @ s @ t) (length p + length s) n cob"
proof (induction s arbitrary: p)
  case Nil
  then show ?case by simp
next
  case (Cons c s)
  have "URLEscape_loop (p @ (c # s) @ t) (length p) n cob
      = URLEscape_loop (p @ (c # s) @ t) (length p + 1) n cob"
    using Cons.prems by (intro URLEscape_loop_pass_step) (simp_all add: nth_append)
  also have "\<dots> = URLEscape_loop ((p @ [c]) @ s @ t) (length (p @ [c])) n cob" by simp
  also have "\<dots> = URLEscape_loop ((p @ [c]) @ s @ t) (length (p @ [c]) + length s) n cob"
    using Cons.prems by (intro Cons.IH) simp_all
  finally show ?case by simp
qed

lemma URLEscape_loop_end: "length v \<le> i \<Longrightarrow> URLEscape_loop v i n cob = Some (n, cob)"
  by (subst URLEscape_loop.simps) simp

lemma URLEscape_loop_percent:
  assumes "n \<le> i" "i + 2 < length v" "v ! i = 37" "IsHexDecimal (v ! (i + 1))"
  shows "URLEscape_loop v i n cob = URLEscape_loop v (i + 3) n cob"
proof -
  from assms have i: "i < length v" by simp
  have "URLEscape_step v i n cob = Some (i + 3, n, cob)"
    using assms(2-4) by (simp add: URLEscape_step_eq [OF assms(1) i] percent_table)
  with assms(1) i show ?thesis by (intro URLEscape_loop_step)
qed

lemma URLEscape_step_total:
  assumes "n \<le> i" "i < length v"
  shows "\<exists>i1 n1 cob1. URLEscape_step v i n cob = Some (i1, n1, cob1) \<and> n1 \<le> i1 \<and> i1 \<le> length v"
  unfolding URLEscape_step_eq [OF assms] using assms
  by (auto split: if_splits)

lemma URLEscape_loop_total:
  "n \<le> i \<Longrightarrow> i \<le> length v \<Longrightarrow>
   \<exists>n' cob'. URLEscape_loop v i n cob = Some (n', cob') \<and> n' \<le> length v"
proof (induction "length v - i" arbitrary: i n cob rule: less_induct)
  case less
  show ?case
  proof (cases "i < length v")
    case False
    with less.prems show ?thesis by (subst URLEscape_loop.simps) simp
  next
    case True
    from URLEscape_step_total [OF less.prems(1) True, of cob]
    obtain i1 n1 cob1 where st: "URLEscape_step v i n cob = Some (i1, n1, cob1)"
      and b: "n1 \<le> i1" "i1 \<le> length v" by blast
    from URLEscape_step_advances [OF st] True have "length v - i1 < length v - i" by arith
    from less.hyps [OF this b] st True show ?thesis
      by (subst URLEscape_loop.simps) simp
  qed
qed

lemmas url_eval =
  URLEscape_def URLEscape_cob_def URLEscape_loop.simps URLEscape_step_def htmlSpace_def int8_def
  urlEscapeTable_def utf8lenTable_def UTF8Len_def nth_append QueryEscape_def QueryEscape_byte_def
  shouldEscape_def upperhex_def

section \<open>URLEscape: what each step adds to the output\<close>

text \<open>
  \<open>URLEscape_scanned\<close> is the slice the loop of \<open>URLEscape\<close> runs over: the input itself,
  or the input after the three resolving passes when \<open>resolveReference\<close> is set.
  \<open>URLEscape_trace\<close> lists the states \<open>(i, n, cob)\<close> in which the loop tests its condition,
  from a given state on; the loop index lands on \<open>i\<close> exactly when a state with that index
  is in the trace from the initial state.
\<close>

definition URLEscape_scanned ::
  "(byte list \<Rightarrow> byte list option) \<Rightarrow> byte list \<Rightarrow> bool \<Rightarrow> byte list option" where
  "URLEscape_scanned lookup v0 resolveReference =
     (if resolveReference then
        do {
          v1 \<leftarrow> UnescapePunctuations v0;
          v2 \<leftarrow> ResolveNumericReferences v1;
          ResolveEntityNames lookup v2
        }
      else Some v0)"

function URLEscape_trace ::
  "byte list \<Rightarrow> nat \<Rightarrow> nat \<Rightarrow> CopyOnWriteBuffer \<Rightarrow> (nat \<times> nat \<times> CopyOnWriteBuffer) list" where
  "URLEscape_trace v i n cob =
     (i, n, cob) #
     (if i < length v then
        (case URLEscape_step v i n cob of
           None \<Rightarrow> []
         | Some (i1, n1, cob1) \<Rightarrow> URLEscape_trace v i1 n1 cob1)
      else [])"
  by pat_completeness auto
termination
  by (relation "measure (\<lambda>(v, i, n, cob). length v - i)")
     (auto dest: URLEscape_step_advances)

declare URLEscape_trace.simps [simp del]

text \<open>
  \<open>written cob\<close> is what has been written to the buffer so far (nothing while the buffer
  still borrows the input). \<open>URLEscape_rest v i\<close> is the output the scan produces for the
  bytes from index \<open>i\<close> on: the result of the loop started at \<open>i\<close> with the cursor at \<open>i\<close>
  and an empty buffer of its own. \<open>URLEscape_u8len\<close> is the value of \<open>u8len\<close> after the
  clamp \<open>if int(u8len) > len(v) { u8len = int8(len(v) - 1) }\<close>.
\<close>

definition written :: "CopyOnWriteBuffer \<Rightarrow> byte list" where
  "written cob = (if copied cob then buffer cob else [])"

definition URLEscape_rest :: "byte list \<Rightarrow> nat \<Rightarrow> byte list" where
  "URLEscape_rest v i =
     (case URLEscape_loop v i i \<lparr>buffer = [], copied = True\<rparr> of
        None \<Rightarrow> []
      | Some (n, cob) \<Rightarrow> flushed v n cob)"

definition URLEscape_u8len :: "byte list \<Rightarrow> byte \<Rightarrow> int" where
  "URLEscape_u8len v c =
     (if utf8lenTable ! unat c > int (length v) then int8 (int (length v) - 1)
      else utf8lenTable ! unat c)"

lemma URLEscape_cob_scanned:
  "URLEscape_cob lookup v0 resolveReference =
     do {
       v \<leftarrow> URLEscape_scanned lookup v0 resolveReference;
       (n, cob) \<leftarrow> URLEscape_loop v 0 0 (NewCopyOnWriteBuffer v);
       if IsCopied cob \<and> n < length v then do { s \<leftarrow> slice_from v n; Some (Write cob s) }
       else Some cob
     }"
  by (simp add: URLEscape_cob_def URLEscape_scanned_def)

lemma URLEscape_flushed:
  assumes "URLEscape_scanned lookup v0 resolveReference = Some v"
    and "URLEscape_loop v 0 0 (NewCopyOnWriteBuffer v) = Some (n, cob)"
    and "n \<le> length v"
  shows "URLEscape lookup v0 resolveReference = Some (flushed v n cob)"
  using assms
  by (simp add: URLEscape_def URLEscape_cob_scanned IsCopied_def Bytes_def flushed_def)

lemma URLEscape_u8len_pos:
  assumes "1 < length v"
  shows "0 < URLEscape_u8len v c"
  using assms utf8lenTable_range [of c]
  by (auto simp: int8_def URLEscape_u8len_def)

lemma URLEscape_step_u8len:
  assumes a: "n \<le> i" "i < length v"
  shows "URLEscape_step v i n cob =
     Some (if urlEscapeTable ! unat (v ! i) = 1 then (i + 1, n, cob)
           else if v ! i = 37 \<and> i + 2 < length v \<and> IsHexDecimal (v ! (i + 1)) then (i + 3, n, cob)
           else if utf8lenTable ! unat (v ! i) = 99 then (i + 1, n, cob)
           else if v ! i = 32 then (i + 1, i + 1, Write (Write cob (take (i - n) (drop n v))) htmlSpace)
           else if URLEscape_u8len v (v ! i) = 0 then (i + 1, i + 1, cob)
           else if i + nat (URLEscape_u8len v (v ! i)) > length v
                then (i + 1, i + 1, Write cob (take (i - n) (drop n v)))
           else (i + nat (URLEscape_u8len v (v ! i)), i + nat (URLEscape_u8len v (v ! i)),
                 Write (Write cob (take (i - n) (drop n v)))
                   (QueryEscape (take (nat (URLEscape_u8len v (v ! i))) (drop i v)))))"
  unfolding URLEscape_u8len_def by (rule URLEscape_step_eq [OF a])

lemma UTF8Len_u8len:
  assumes c: "UTF8Len c = 2 \<or> UTF8Len c = 3 \<or> UTF8Len c = 4"
  shows "URLEscape_u8len v c = (if int (length v) < UTF8Len c then int (length v) - 1 else UTF8Len c)"
  using c by (auto simp: URLEscape_u8len_def UTF8Len_def int8_def)

lemma URLEscape_step_cases:
  assumes i: "i < length v" and l: "length v \<noteq> 1"
  shows "\<exists>k w. 0 < k \<and> i + k \<le> length v \<and>
      ((\<forall>n cob. n \<le> i \<longrightarrow> URLEscape_step v i n cob = Some (i + k, n, cob))
       \<and> w = take k (drop i v)
     \<or> (\<forall>n cob. n \<le> i \<longrightarrow> (\<exists>cob1. URLEscape_step v i n cob = Some (i + k, i + k, cob1)
            \<and> copied cob1 \<and> buffer cob1 = written cob @ take (i - n) (drop n v) @ w)))"
proof -
  let ?u = "URLEscape_u8len v (v ! i)"
  from i l have "1 < length v" by arith
  then have nz: "0 < ?u" "?u \<noteq> 0" using URLEscape_u8len_pos [of v "v ! i"] by simp_all
  define pc where "pc = (v ! i = 37 \<and> i + 2 < length v \<and> IsHexDecimal (v ! (i + 1)))"
  have eq: "URLEscape_step v i n cob =
     Some (if urlEscapeTable ! unat (v ! i) = 1 then (i + 1, n, cob)
           else if pc then (i + 3, n, cob)
           else if utf8lenTable ! unat (v ! i) = 99 then (i + 1, n, cob)
           else if v ! i = 32 then (i + 1, i + 1, Write (Write cob (take (i - n) (drop n v))) htmlSpace)
           else if ?u = 0 then (i + 1, i + 1, cob)
           else if i + nat ?u > length v
                then (i + 1, i + 1, Write cob (take (i - n) (drop n v)))
           else (i + nat ?u, i + nat ?u,
                 Write (Write cob (take (i - n) (drop n v)))
                   (QueryEscape (take (nat ?u) (drop i v)))))" if "n \<le> i" for n cob
    unfolding pc_def using that i by (rule URLEscape_step_u8len)
  consider (safe) "urlEscapeTable ! unat (v ! i) = 1"
    | (pct) "urlEscapeTable ! unat (v ! i) \<noteq> 1" "pc"
    | (inv) "urlEscapeTable ! unat (v ! i) \<noteq> 1" "\<not> pc" "utf8lenTable ! unat (v ! i) = 99"
    | (sp) "urlEscapeTable ! unat (v ! i) \<noteq> 1" "\<not> pc" "utf8lenTable ! unat (v ! i) \<noteq> 99" "v ! i = 32"
    | (drop) "urlEscapeTable ! unat (v ! i) \<noteq> 1" "\<not> pc" "utf8lenTable ! unat (v ! i) \<noteq> 99"
        "v ! i \<noteq> 32" "i + nat ?u > length v"
    | (esc) "urlEscapeTable ! unat (v ! i) \<noteq> 1" "\<not> pc" "utf8lenTable ! unat (v ! i) \<noteq> 99"
        "v ! i \<noteq> 32" "\<not> i + nat ?u > length v"
    by blast
  then show ?thesis
  proof cases
    case safe
    have "\<forall>n cob. n \<le> i \<longrightarrow> URLEscape_step v i n cob = Some (i + 1, n, cob)"
      using safe by (simp add: eq)
    with i show ?thesis by (intro exI [of _ 1] exI [of _ "take 1 (drop i v)"]) simp
  next
    case pct
    have "\<forall>n cob. n \<le> i \<longrightarrow> URLEscape_step v i n cob = Some (i + 3, n, cob)"
      using pct by (simp add: eq)
    moreover have "i + 3 \<le> length v" using pct(2) by (simp add: pc_def)
    ultimately show ?thesis by (intro exI [of _ 3] exI [of _ "take 3 (drop i v)"]) simp
  next
    case inv
    have "\<forall>n cob. n \<le> i \<longrightarrow> URLEscape_step v i n cob = Some (i + 1, n, cob)"
      using inv by (simp add: eq)
    with i show ?thesis by (intro exI [of _ 1] exI [of _ "take 1 (drop i v)"]) simp
  next
    case sp
    have "\<forall>n cob. n \<le> i \<longrightarrow> URLEscape_step v i n cob
        = Some (i + 1, i + 1, Write (Write cob (take (i - n) (drop n v))) htmlSpace)"
      using sp by (simp add: eq)
    with i show ?thesis
      by (intro exI [of _ 1] exI [of _ htmlSpace]) (simp add: written_def)
  next
    case drop
    have "\<forall>n cob. n \<le> i \<longrightarrow> URLEscape_step v i n cob
        = Some (i + 1, i + 1, Write cob (take (i - n) (drop n v)))"
      using drop nz(2) by (simp add: eq)
    with i show ?thesis
      by (intro exI [of _ 1] exI [of _ "[]"]) (simp add: written_def)
  next
    case esc
    have "\<forall>n cob. n \<le> i \<longrightarrow> URLEscape_step v i n cob
        = Some (i + nat ?u, i + nat ?u,
            Write (Write cob (take (i - n) (drop n v))) (QueryEscape (take (nat ?u) (drop i v))))"
      using esc nz(2) by (simp add: eq)
    moreover have "0 < nat ?u" using nz(1) by simp
    moreover have "i + nat ?u \<le> length v" using esc(5) by simp
    ultimately show ?thesis
      by (intro exI [of _ "nat ?u"] exI [of _ "QueryEscape (take (nat ?u) (drop i v))"])
         (simp add: written_def)
  qed
qed

lemma take_span_add:
  "n \<le> i \<Longrightarrow> i + k \<le> length v \<Longrightarrow>
   take (i + k - n) (drop n v) = take (i - n) (drop n v) @ take k (drop i v)"
proof -
  assume a: "n \<le> i" "i + k \<le> length v"
  have "take (i + k - n) (drop n v) = take ((i - n) + k) (drop n v)" using a by simp
  also have "\<dots> = take (i - n) (drop n v) @ take k (drop (i - n) (drop n v))"
    by (rule take_add)
  finally show ?thesis using a by simp
qed

lemma URLEscape_loop_output:
  assumes l: "length v \<noteq> 1"
  shows "n \<le> i \<Longrightarrow> i \<le> length v \<Longrightarrow> (\<not> copied cob \<longrightarrow> n = 0 \<and> buffer cob = v) \<Longrightarrow>
   \<exists>n' cob'. URLEscape_loop v i n cob = Some (n', cob') \<and> n' \<le> length v
      \<and> flushed v n' cob' = written cob @ take (i - n) (drop n v) @ URLEscape_rest v i"
proof (induction "length v - i" arbitrary: i n cob rule: less_induct)
  case less
  let ?E = "\<lparr>buffer = [], copied = True\<rparr>"
  show ?case
  proof (cases "i < length v")
    case False
    with less.prems have i: "i = length v" by simp
    have "URLEscape_rest v i = []"
      using i by (simp add: URLEscape_rest_def URLEscape_loop_end flushed_def)
    with i less.prems show ?thesis
      by (auto simp: URLEscape_loop_end flushed_def written_def)
  next
    case True
    from URLEscape_step_cases [OF True l] obtain k w where k: "0 < k" "i + k \<le> length v"
      and alt: "((\<forall>n cob. n \<le> i \<longrightarrow> URLEscape_step v i n cob = Some (i + k, n, cob))
       \<and> w = take k (drop i v)
     \<or> (\<forall>n cob. n \<le> i \<longrightarrow> (\<exists>cob1. URLEscape_step v i n cob = Some (i + k, i + k, cob1)
            \<and> copied cob1 \<and> buffer cob1 = written cob @ take (i - n) (drop n v) @ w)))"
      by blast
    from k True have m: "length v - (i + k) < length v - i" by arith
    from alt show ?thesis
    proof
      assume p: "(\<forall>n cob. n \<le> i \<longrightarrow> URLEscape_step v i n cob = Some (i + k, n, cob))
       \<and> w = take k (drop i v)"
      then have s1: "URLEscape_step v i n cob = Some (i + k, n, cob)"
        and s2: "URLEscape_step v i i ?E = Some (i + k, i, ?E)"
        using less.prems by simp_all
      have l1: "URLEscape_loop v i n cob = URLEscape_loop v (i + k) n cob"
        using less.prems(1) True s1 by (rule URLEscape_loop_step)
      have l2: "URLEscape_loop v i i ?E = URLEscape_loop v (i + k) i ?E"
        using True s2 by (intro URLEscape_loop_step) simp_all
      from less.hyps [OF m, of n cob] less.prems k
      obtain n' cob' where r1: "URLEscape_loop v (i + k) n cob = Some (n', cob')" "n' \<le> length v"
        "flushed v n' cob' = written cob @ take (i + k - n) (drop n v) @ URLEscape_rest v (i + k)"
        by auto
      from less.hyps [OF m, of i ?E] k
      obtain n2 cob2 where r2: "URLEscape_loop v (i + k) i ?E = Some (n2, cob2)"
        "flushed v n2 cob2 = written ?E @ take (i + k - i) (drop i v) @ URLEscape_rest v (i + k)"
        by auto
      have "URLEscape_rest v i = take k (drop i v) @ URLEscape_rest v (i + k)"
        using r2 l2 by (simp add: URLEscape_rest_def written_def)
      with r1 l1 less.prems k show ?thesis
        by (simp add: take_span_add)
    next
      assume q: "\<forall>n cob. n \<le> i \<longrightarrow> (\<exists>cob1. URLEscape_step v i n cob = Some (i + k, i + k, cob1)
            \<and> copied cob1 \<and> buffer cob1 = written cob @ take (i - n) (drop n v) @ w)"
      from q less.prems obtain cob1 where s1: "URLEscape_step v i n cob = Some (i + k, i + k, cob1)"
        and c1: "copied cob1" "buffer cob1 = written cob @ take (i - n) (drop n v) @ w"
        by blast
      from q obtain e1 where s2: "URLEscape_step v i i ?E = Some (i + k, i + k, e1)"
        and c2: "copied e1" "buffer e1 = written ?E @ take (i - i) (drop i v) @ w"
        by blast
      have l1: "URLEscape_loop v i n cob = URLEscape_loop v (i + k) (i + k) cob1"
        using less.prems(1) True s1 by (rule URLEscape_loop_step)
      have l2: "URLEscape_loop v i i ?E = URLEscape_loop v (i + k) (i + k) e1"
        using True s2 by (intro URLEscape_loop_step) simp_all
      from less.hyps [OF m, of "i + k" cob1] c1 k
      obtain n' cob' where r1: "URLEscape_loop v (i + k) (i + k) cob1 = Some (n', cob')" "n' \<le> length v"
        "flushed v n' cob' = written cob1 @ take (i + k - (i + k)) (drop (i + k) v) @ URLEscape_rest v (i + k)"
        by auto
      from less.hyps [OF m, of "i + k" e1] c2 k
      obtain n2 cob2 where r2: "URLEscape_loop v (i + k) (i + k) e1 = Some (n2, cob2)"
        "flushed v n2 cob2 = written e1 @ take (i + k - (i + k)) (drop (i + k) v) @ URLEscape_rest v (i + k)"
        by auto
      have "URLEscape_rest v i = w @ URLEscape_rest v (i + k)"
        using r2 l2 c2 by (simp add: URLEscape_rest_def written_def)
      with r1 l1 c1 show ?thesis
        by (simp add: written_def)
    qed
  qed
qed

lemma URLEscape_trace_state:
  assumes l: "length v \<noteq> 1"
  shows "n0 \<le> i0 \<Longrightarrow> i0 \<le> length v \<Longrightarrow> (\<not> copied cob0 \<longrightarrow> n0 = 0 \<and> buffer cob0 = v) \<Longrightarrow>
   (i, n, cob) \<in> set (URLEscape_trace v i0 n0 cob0) \<Longrightarrow>
   n \<le> i \<and> i \<le> length v \<and> (\<not> copied cob \<longrightarrow> n = 0 \<and> buffer cob = v)
   \<and> URLEscape_loop v i0 n0 cob0 = URLEscape_loop v i n cob"
proof (induction "length v - i0" arbitrary: i0 n0 cob0 rule: less_induct)
  case less
  show ?case
  proof (cases "(i, n, cob) = (i0, n0, cob0)")
    case True
    with less.prems show ?thesis by simp
  next
    case False
    have tr: "URLEscape_trace v i0 n0 cob0 =
       (i0, n0, cob0) #
       (if i0 < length v then
          (case URLEscape_step v i0 n0 cob0 of
             None \<Rightarrow> []
           | Some (i1, n1, cob1) \<Rightarrow> URLEscape_trace v i1 n1 cob1)
        else [])"
      by (rule URLEscape_trace.simps)
    have i0: "i0 < length v"
    proof (rule ccontr)
      assume "\<not> i0 < length v"
      then have "URLEscape_trace v i0 n0 cob0 = [(i0, n0, cob0)]" by (simp add: tr)
      with less.prems(4) False show False by simp
    qed
    from URLEscape_step_cases [OF i0 l] obtain k w where k: "0 < k" "i0 + k \<le> length v"
      and alt: "((\<forall>n cob. n \<le> i0 \<longrightarrow> URLEscape_step v i0 n cob = Some (i0 + k, n, cob))
       \<and> w = take k (drop i0 v)
     \<or> (\<forall>n cob. n \<le> i0 \<longrightarrow> (\<exists>cob1. URLEscape_step v i0 n cob = Some (i0 + k, i0 + k, cob1)
            \<and> copied cob1 \<and> buffer cob1 = written cob @ take (i0 - n) (drop n v) @ w)))"
      by blast
    from k i0 have m: "length v - (i0 + k) < length v - i0" by arith
    have "\<exists>n1 cob1. URLEscape_step v i0 n0 cob0 = Some (i0 + k, n1, cob1)
        \<and> n1 \<le> i0 + k \<and> (\<not> copied cob1 \<longrightarrow> n1 = 0 \<and> buffer cob1 = v)"
      using alt
    proof
      assume "(\<forall>n cob. n \<le> i0 \<longrightarrow> URLEscape_step v i0 n cob = Some (i0 + k, n, cob))
          \<and> w = take k (drop i0 v)"
      with less.prems(1,3) show ?thesis by simp
    next
      assume "\<forall>n cob. n \<le> i0 \<longrightarrow> (\<exists>cob1. URLEscape_step v i0 n cob = Some (i0 + k, i0 + k, cob1)
            \<and> copied cob1 \<and> buffer cob1 = written cob @ take (i0 - n) (drop n v) @ w)"
      with less.prems(1) obtain c1 where "URLEscape_step v i0 n0 cob0 = Some (i0 + k, i0 + k, c1)"
        "copied c1" by blast
      then show ?thesis by simp
    qed
    then obtain n1 cob1 where s: "URLEscape_step v i0 n0 cob0 = Some (i0 + k, n1, cob1)"
      and inv: "n1 \<le> i0 + k" "\<not> copied cob1 \<longrightarrow> n1 = 0 \<and> buffer cob1 = v"
      by blast
    have "URLEscape_trace v i0 n0 cob0 = (i0, n0, cob0) # URLEscape_trace v (i0 + k) n1 cob1"
      using i0 s by (simp add: tr)
    with less.prems(4) False have mem: "(i, n, cob) \<in> set (URLEscape_trace v (i0 + k) n1 cob1)"
      by auto
    have "URLEscape_loop v i0 n0 cob0 = URLEscape_loop v (i0 + k) n1 cob1"
      using less.prems(1) i0 s by (rule URLEscape_loop_step)
    with less.hyps [OF m inv(1) k(2) inv(2) mem] show ?thesis by simp
  qed
qed


text \<open>
  \<open>URLEscape_rest\<close> at the two ends: an index at or past the end has no output, and
  the output from index 0 on is the result of \<open>URLEscape\<close>.
\<close>

lemma URLEscape_rest_end: "length v \<le> i \<Longrightarrow> URLEscape_rest v i = []"
  by (simp add: URLEscape_rest_def URLEscape_loop_end flushed_def)

lemma URLEscape_rest_whole:
  assumes sc: "URLEscape_scanned lookup v0 resolveReference = Some v" and l: "length v \<noteq> 1"
  shows "URLEscape lookup v0 resolveReference = Some (URLEscape_rest v 0)"
proof -
  from URLEscape_loop_output [OF l, of 0 0 "NewCopyOnWriteBuffer v"]
  obtain n' cob' where "URLEscape_loop v 0 0 (NewCopyOnWriteBuffer v) = Some (n', cob')"
    "n' \<le> length v"
    "flushed v n' cob' = written (NewCopyOnWriteBuffer v) @ URLEscape_rest v 0"
    by (auto simp: NewCopyOnWriteBuffer_def)
  then show ?thesis
    using URLEscape_flushed [OF sc, of n' cob'] by (simp add: written_def NewCopyOnWriteBuffer_def)
qed

lemmas url_trace_eval =
  URLEscape_scanned_def URLEscape_trace.simps URLEscape_rest_def URLEscape_u8len_def
  written_def flushed_def

text \<open>
  Claim C9, as the code has it. The claim does not hold for every \<open>%\<close> that is followed
  by a hexadecimal digit and one more byte: a \<open>%\<close> that a lead byte before it takes into
  its sequence is escaped with that sequence (the byte C3 before \<open>%2G\<close> gives \<open>%C3%252G\<close>), and the byte
  after a \<open>%\<close> that was stepped over as the third byte of an earlier escape is scanned
  on its own (\<open>%2%4\<close> followed by a space ends in \<open>%20\<close>). The claim holds whenever the
  loop index lands on the \<open>%\<close>: in every state \<open>(i, n, cob)\<close> the loop reaches, whatever
  has been written before and with or without the resolution of references, if \<open>v[i]\<close>
  is \<open>%\<close>, at least two more bytes follow and \<open>v[i+1]\<close> is a hexadecimal digit, then the
  step writes nothing, leaves the cursor where it is and continues at \<open>i + 3\<close>, and the
  result of \<open>URLEscape\<close> is what was written so far, the pending bytes \<open>v[n:i]\<close>, the three
  bytes \<open>%\<close>, \<open>v[i+1]\<close>, \<open>v[i+2]\<close> as they are, and the output for the bytes from \<open>i + 3\<close>
  on. Nothing is asked of \<open>v[i+2]\<close>: the byte is never examined.
\<close>

theorem URLEscape_percent_second_byte_unchecked:
  assumes sc: "URLEscape_scanned lookup v0 resolveReference = Some v"
    and tr: "(i, n, cob) \<in> set (URLEscape_trace v 0 0 (NewCopyOnWriteBuffer v))"
    and pc: "v ! i = 37" "i + 2 < length v" "IsHexDecimal (v ! (i + 1))"
  shows "URLEscape_step v i n cob = Some (i + 3, n, cob)
       \<and> URLEscape lookup v0 resolveReference =
           Some (written cob @ take (i - n) (drop n v)
                 @ [37, v ! (i + 1), v ! (i + 2)] @ URLEscape_rest v (i + 3))"
proof -
  from pc have l: "length v \<noteq> 1" by simp
  from URLEscape_trace_state [OF l _ _ _ tr]
  have inv: "n \<le> i" "\<not> copied cob \<longrightarrow> n = 0 \<and> buffer cob = v"
    and run: "URLEscape_loop v 0 0 (NewCopyOnWriteBuffer v) = URLEscape_loop v i n cob"
    by (simp_all add: NewCopyOnWriteBuffer_def)
  from pc have i: "i < length v" by simp
  have st: "URLEscape_step v i n cob = Some (i + 3, n, cob)"
    using pc by (simp add: URLEscape_step_eq [OF inv(1) i] percent_table)
  have "URLEscape_loop v i n cob = URLEscape_loop v (i + 3) n cob"
    using inv(1) i st by (rule URLEscape_loop_step)
  moreover from URLEscape_loop_output [OF l, of n "i + 3" cob] inv pc
  obtain n' cob' where "URLEscape_loop v (i + 3) n cob = Some (n', cob')" "n' \<le> length v"
    "flushed v n' cob' = written cob @ take (i + 3 - n) (drop n v) @ URLEscape_rest v (i + 3)"
    by auto
  moreover have "take (i + 3 - n) (drop n v) = take (i - n) (drop n v) @ take 3 (drop i v)"
    using inv(1) pc(2) by (intro take_span_add) simp_all
  moreover have "take 3 (drop i v) = [37, v ! (i + 1), v ! (i + 2)]"
  proof -
    have "drop i v = v ! i # v ! (i + 1) # v ! (i + 2) # drop (i + 3) v"
      using pc(2) by (simp add: Cons_nth_drop_Suc numeral_3_eq_3 numeral_2_eq_2)
    then show ?thesis using pc(1) by (simp add: numeral_3_eq_3)
  qed
  ultimately have "URLEscape lookup v0 resolveReference =
           Some (written cob @ take (i - n) (drop n v)
                 @ [37, v ! (i + 1), v ! (i + 2)] @ URLEscape_rest v (i + 3))"
    using URLEscape_flushed [OF sc, of n' cob'] run by simp
  with st show ?thesis by simp
qed

theorem URLEscape_percent_second_byte_unchecked_counterexample:
  "IsHexDecimal 50
   \<and> URLEscape no_entities [0xC3, 37, 50, 71] False = Some (bytes ''%C3%252G'')
   \<and> URLEscape no_entities (bytes ''%2%4 '') False = Some (bytes ''%2%4%20'')"
  by (simp add: url_eval scan_eval cong: option_bind_weak_cong)

theorem URLEscape_percent_second_byte_unchecked_witness:
  "\<not> IsHexDecimal 71
   \<and> URLEscape no_entities (bytes '' %2G'') False = Some (bytes ''%20%2G'')
   \<and> URLEscape no_entities (bytes ''%2G%2G'') False = Some (bytes ''%2G%2G'')
   \<and> URLEscape no_entities (bytes ''&#32;%2G'') True = Some (bytes ''%20%2G'')"
proof -
  have a: "URLEscape no_entities (bytes '' %2G'') False = Some (bytes ''%20%2G'')"
    using URLEscape_percent_second_byte_unchecked [of no_entities "bytes '' %2G''" False "bytes '' %2G''" 1 1
        "\<lparr>buffer = bytes ''%20'', copied = True\<rparr>"]
    by (simp add: url_trace_eval url_eval scan_eval cong: option_bind_weak_cong)
  have b: "URLEscape no_entities (bytes ''%2G%2G'') False = Some (bytes ''%2G%2G'')"
    using URLEscape_percent_second_byte_unchecked [of no_entities "bytes ''%2G%2G''" False "bytes ''%2G%2G''" 3 0
        "NewCopyOnWriteBuffer (bytes ''%2G%2G'')"]
    by (simp add: url_trace_eval url_eval scan_eval cong: option_bind_weak_cong)
  have sc: "URLEscape_scanned no_entities (bytes ''&#32;%2G'') True = Some (bytes '' %2G'')"
    by (simp add: URLEscape_scanned_def UnescapePunctuations_def UnescapePunctuations_cob_def
        UnescapePunctuations_loop.simps ResolveEntityNames_def ResolveEntityNames_cob_def
        ResolveEntityNames_loop.simps ResolveEntityNames_match_def no_entities_def
        numeric_eval rune_eval scan_eval cong: option_bind_weak_cong)
  have c: "URLEscape no_entities (bytes ''&#32;%2G'') True = Some (bytes ''%20%2G'')"
    using URLEscape_percent_second_byte_unchecked [of no_entities "bytes ''&#32;%2G''" True "bytes '' %2G''" 1 1
        "\<lparr>buffer = bytes ''%20'', copied = True\<rparr>"] sc
    by (simp add: URLEscape_trace.simps URLEscape_rest_def written_def flushed_def
        url_eval scan_eval cong: option_bind_weak_cong)
  have d: "\<not> IsHexDecimal 71" by (simp add: IsHexDecimal_def)
  from a b c d show ?thesis by simp
qed

section \<open>The scanners never fail\<close>

lemma UnescapePunctuations_returns: "\<exists>r. UnescapePunctuations v = Some r"
proof -
  obtain n' cob' where "UnescapePunctuations_loop v 0 0 (NewCopyOnWriteBuffer v) = Some (n', cob')"
    "n' \<le> length v"
    using UnescapePunctuations_loop_spec [of 0 0 v "NewCopyOnWriteBuffer v"]
    by (auto simp: NewCopyOnWriteBuffer_def)
  then show ?thesis
    by (simp add: UnescapePunctuations_def UnescapePunctuations_cob_def slice_from_def slice_def)
qed

lemma ReadWhile_total:
  "lo \<le> hi \<Longrightarrow> hi \<le> length source \<Longrightarrow>
   \<exists>j ok'. ReadWhile_loop source lo hi pred ok = Some (j, ok') \<and> lo \<le> j \<and> j \<le> hi"
proof (induction "hi - lo" arbitrary: lo ok rule: less_induct)
  case less
  show ?case
  proof (cases "lo < hi \<and> pred (source ! lo)")
    case True
    then have "hi - (lo + 1) < hi - lo" by arith
    from less.hyps [OF this, of True] True less.prems
    obtain j ok' where "ReadWhile_loop source (lo + 1) hi pred True = Some (j, ok')"
      "lo + 1 \<le> j" "j \<le> hi" by auto
    with True less.prems show ?thesis
      by (subst ReadWhile_loop.simps) (simp add: index_def)
  next
    case False
    with less.prems show ?thesis
      by (subst ReadWhile_loop.simps) (auto simp: index_def)
  qed
qed

lemma ResolveNumericReferences_match_total:
  assumes n: "n \<le> i" and i: "i < length source"
  shows "\<exists>m. ResolveNumericReferences_match source i n cob = Some m
     \<and> (\<forall>i' n' cob'. m = Some (i', n', cob') \<longrightarrow> i' < length source \<and> n' = i' + 1)"
proof (cases "i + 1 + 1 < length source")
  case False
  then show ?thesis
    by (auto simp: ResolveNumericReferences_match_def Let_def index_def)
next
  case True
  obtain jh okh where h: "ReadWhile source (i + 1 + 1 + 1, length source) IsHexDecimal = Some (jh, okh)"
    and hb: "i + 1 + 1 + 1 \<le> jh" "jh \<le> length source"
    using ReadWhile_total [of "i + 1 + 1 + 1" "length source" source IsHexDecimal False] True
    by (auto simp: ReadWhile_def)
  obtain jd okd where d: "ReadWhile source (i + 1 + 1, length source) IsNumeric = Some (jd, okd)"
    and db: "i + 1 + 1 \<le> jd" "jd \<le> length source"
    using ReadWhile_total [of "i + 1 + 1" "length source" source IsNumeric False] True
    by (auto simp: ReadWhile_def)
  have idx: "index source (i + 1) = Some (source ! (i + 1))"
    "index source (i + 1 + 1) = Some (source ! (i + 1 + 1))"
    using True by (simp_all add: index_def)
  have lt: "i + 1 < length source" using True by simp
  have sl: "slice source n i = Some (take (i - n) (drop n source))"
    using n i by (simp add: slice_def)
  have slh: "slice source (i + 1 + 1 + 1) jh \<noteq> None" using hb by (simp add: slice_def)
  have sld: "slice source (i + 1 + 1) jd \<noteq> None" using db by (simp add: slice_def)
  have ih: "jh < length source \<Longrightarrow> index source jh = Some (source ! jh)"
    and id: "jd < length source \<Longrightarrow> index source jd = Some (source ! jd)"
    by (simp_all add: index_def)
  show ?thesis
    unfolding ResolveNumericReferences_match_def Let_def
    using slh sld ih id
    by (simp only: idx lt True h d sl if_True bind.bind_lunit split_conv) auto
qed


lemma ResolveNumericReferences_loop_total:
  "n \<le> i \<Longrightarrow> i \<le> length source \<Longrightarrow>
   \<exists>n' cob'. ResolveNumericReferences_loop source i n cob = Some (n', cob') \<and> n' \<le> length source"
proof (induction "length source - i" arbitrary: i n cob rule: less_induct)
  case less
  show ?case
  proof (cases "i < length source")
    case False
    with less.prems show ?thesis by (subst ResolveNumericReferences_loop.simps) simp
  next
    case True
    have next_ok: "\<exists>n' cob'. ResolveNumericReferences_loop source (i + 1) n cob = Some (n', cob')
        \<and> n' \<le> length source"
      using True less.prems by (intro less.hyps) simp_all
    show ?thesis
    proof (cases "source ! i = 38")
      case False
      with True next_ok show ?thesis
        by (subst ResolveNumericReferences_loop.simps) (simp add: index_def)
    next
      case amp: True
      from ResolveNumericReferences_match_total [OF less.prems(1) True, of cob]
      obtain m where m: "ResolveNumericReferences_match source i n cob = Some m"
        and mb: "\<And>i' n' cob'. m = Some (i', n', cob') \<Longrightarrow> i' < length source \<and> n' = i' + 1"
        by blast
      show ?thesis
      proof (cases m)
        case None
        with True amp m next_ok show ?thesis
          by (subst ResolveNumericReferences_loop.simps) (simp add: index_def)
      next
        case (Some t)
        obtain i' n' cob' where t: "t = (i', n', cob')" by (cases t)
        from mb Some t have b: "i' < length source" "n' = i' + 1" by simp_all
        from m Some t have "i < i'" by (intro ResolveNumericReferences_match_advances) simp
        with b have "length source - (i' + 1) < length source - i" by arith
        from less.hyps [OF this, of n' cob'] b
        have "\<exists>n'' cob''. ResolveNumericReferences_loop source (i' + 1) n' cob' = Some (n'', cob'')
          \<and> n'' \<le> length source" by simp
        with True amp m Some t show ?thesis
          by (subst ResolveNumericReferences_loop.simps) (simp add: index_def)
      qed
    qed
  qed
qed

lemma ResolveNumericReferences_total: "\<exists>r. ResolveNumericReferences source = Some r"
proof -
  obtain n' cob' where "ResolveNumericReferences_loop source 0 0 (NewCopyOnWriteBuffer source) = Some (n', cob')"
    "n' \<le> length source"
    using ResolveNumericReferences_loop_total [of 0 0 source "NewCopyOnWriteBuffer source"] by auto
  then show ?thesis
    by (simp add: ResolveNumericReferences_def ResolveNumericReferences_cob_def slice_from_def slice_def)
qed

lemma ResolveEntityNames_match_total:
  assumes n: "n \<le> i" and i: "i < length source"
  shows "\<exists>m. ResolveEntityNames_match lookup source i n cob = Some m
     \<and> (\<forall>i' n' cob'. m = Some (i', n', cob') \<longrightarrow> i' < length source \<and> n' = i' + 1)"
proof -
  obtain j ok where r: "ReadWhile source (i + 1, length source) IsAlphaNumeric = Some (j, ok)"
    and rb: "i + 1 \<le> j" "j \<le> length source"
    using ReadWhile_total [of "i + 1" "length source" source IsAlphaNumeric False] i
    by (auto simp: ReadWhile_def)
  have sl: "slice source n i = Some (take (i - n) (drop n source))"
    using n i by (simp add: slice_def)
  have slj: "slice source (i + 1) j = Some (take (j - (i + 1)) (drop (i + 1) source))"
    using rb by (simp add: slice_def)
  have ij: "j < length source \<Longrightarrow> index source j = Some (source ! j)"
    by (simp add: index_def)
  have hash: "(if i + 1 < length source then map_option (\<lambda>c. c = 35) (index source (i + 1))
                 else Some False) = Some (i + 1 < length source \<and> source ! (i + 1) = 35)"
    by (simp add: index_def)
  show ?thesis
    unfolding ResolveEntityNames_match_def Let_def
    using ij
    by (simp only: hash r sl slj bind.bind_lunit split_conv) (auto split: option.splits)
qed

lemma ResolveEntityNames_loop_total:
  "n \<le> i \<Longrightarrow> i \<le> length source \<Longrightarrow>
   \<exists>n' cob'. ResolveEntityNames_loop lookup source i n cob = Some (n', cob') \<and> n' \<le> length source"
proof (induction "length source - i" arbitrary: i n cob rule: less_induct)
  case less
  show ?case
  proof (cases "i < length source")
    case False
    with less.prems show ?thesis by (subst ResolveEntityNames_loop.simps) simp
  next
    case True
    have next_ok: "\<exists>n' cob'. ResolveEntityNames_loop lookup source (i + 1) n cob = Some (n', cob')
        \<and> n' \<le> length source"
      using True less.prems by (intro less.hyps) simp_all
    show ?thesis
    proof (cases "source ! i = 38")
      case False
      with True next_ok show ?thesis
        by (subst ResolveEntityNames_loop.simps) (simp add: index_def)
    next
      case amp: True
      from ResolveEntityNames_match_total [OF less.prems(1) True, of lookup cob]
      obtain m where m: "ResolveEntityNames_match lookup source i n cob = Some m"
        and mb: "\<And>i' n' cob'. m = Some (i', n', cob') \<Longrightarrow> i' < length source \<and> n' = i' + 1"
        by blast
      show ?thesis
      proof (cases m)
        case None
        with True amp m next_ok show ?thesis
          by (subst ResolveEntityNames_loop.simps) (simp add: index_def)
      next
        case (Some t)
        obtain i' n' cob' where t: "t = (i', n', cob')" by (cases t)
        from mb Some t have b: "i' < length source" "n' = i' + 1" by simp_all
        from m Some t have "i < i'" by (intro ResolveEntityNames_match_advances) simp
        with b have "length source - (i' + 1) < length source - i" by arith
        from less.hyps [OF this, of n' cob'] b
        have "\<exists>n'' cob''. ResolveEntityNames_loop lookup source (i' + 1) n' cob' = Some (n'', cob'')
          \<and> n'' \<le> length source" by simp
        with True amp m Some t show ?thesis
          by (subst ResolveEntityNames_loop.simps) (simp add: index_def)
      qed
    qed
  qed
qed

lemma ResolveEntityNames_total: "\<exists>r. ResolveEntityNames lookup source = Some r"
proof -
  obtain n' cob' where "ResolveEntityNames_loop lookup source 0 0 (NewCopyOnWriteBuffer source) = Some (n', cob')"
    "n' \<le> length source"
    using ResolveEntityNames_loop_total [of 0 0 source lookup "NewCopyOnWriteBuffer source"] by auto
  then show ?thesis
    by (simp add: ResolveEntityNames_def ResolveEntityNames_cob_def slice_from_def slice_def)
qed

lemma URLEscape_total: "\<exists>r. URLEscape lookup v resolveReference = Some r"
proof -
  obtain v1 where v1: "UnescapePunctuations v = Some v1"
    using UnescapePunctuations_returns [of v] by blast
  obtain v2 where v2: "ResolveNumericReferences v1 = Some v2"
    using ResolveNumericReferences_total by blast
  obtain v3 where v3: "ResolveEntityNames lookup v2 = Some v3"
    using ResolveEntityNames_total by blast
  have scan: "\<exists>r. (do {
       (n, cob) \<leftarrow> URLEscape_loop w 0 0 (NewCopyOnWriteBuffer w);
       if IsCopied cob \<and> n < length w then do { s \<leftarrow> slice_from w n; Some (Write cob s) }
       else Some cob
     }) = Some r" for w
  proof -
    obtain n' cob' where "URLEscape_loop w 0 0 (NewCopyOnWriteBuffer w) = Some (n', cob')"
      "n' \<le> length w"
      using URLEscape_loop_total [of 0 0 w "NewCopyOnWriteBuffer w"] by auto
    then show ?thesis by (simp add: slice_from_def slice_def)
  qed
  show ?thesis
  proof (cases resolveReference)
    case True
    with v1 v2 v3 scan [of v3] show ?thesis
      by (simp add: URLEscape_def URLEscape_cob_def)
  next
    case False
    with scan [of v] show ?thesis
      by (simp add: URLEscape_def URLEscape_cob_def)
  qed
qed

section \<open>URLEscape on a sequence that runs past the end\<close>

lemma URLEscape_step_overrun:
  assumes n: "n \<le> i" and i: "i < length v"
    and c: "UTF8Len (v ! i) = 2 \<or> UTF8Len (v ! i) = 3 \<or> UTF8Len (v ! i) = 4"
    and fits: "UTF8Len (v ! i) \<le> int (length v)"
    and over: "int (length v) < int i + UTF8Len (v ! i)"
  shows "URLEscape_step v i n cob = Some (i + 1, i + 1, Write cob (take (i - n) (drop n v)))"
proof -
  note lb = lead_byte [OF c]
  from c have u: "utf8lenTable ! unat (v ! i) \<noteq> 99" "utf8lenTable ! unat (v ! i) \<noteq> 0"
    "0 < utf8lenTable ! unat (v ! i)"
    by (auto simp: UTF8Len_def)
  from fits have nf: "\<not> int (length v) < utf8lenTable ! unat (v ! i)" by (simp add: UTF8Len_def)
  from over u(3) have st: "length v < i + nat (utf8lenTable ! unat (v ! i))"
    by (simp add: UTF8Len_def)
  show ?thesis
    using lb u nf st by (simp add: URLEscape_step_eq [OF n i])
qed

lemma URLEscape_step_single:
  assumes c: "UTF8Len c = 2 \<or> UTF8Len c = 3 \<or> UTF8Len c = 4"
  shows "URLEscape_step [c] 0 0 cob = Some (1, 1, cob)"
proof -
  note lb = lead_byte [OF c]
  from c have u: "utf8lenTable ! unat c \<noteq> 99" "1 < utf8lenTable ! unat c"
    by (auto simp: UTF8Len_def)
  have "URLEscape_step [c] 0 0 cob = Some (0 + 1, 0 + 1, cob)"
    using lb u by (simp add: URLEscape_step_eq [of 0 0 "[c]"] int8_def)
  then show ?thesis by simp
qed

text \<open>
  Claim C2, as the code has it. \<open>URLEscape\<close> never fails, with or without the
  resolution of references. The byte is not passed through in general: \<open>a\<close> followed by
  the byte C3 gives \<open>a\<close>, and \<open>a\<close> followed by the byte E3 gives \<open>a%E3\<close>. What happens in every state \<open>(i, n, cob)\<close> the loop
  reaches at a byte \<open>v[i]\<close> whose declared length of two to four bytes runs past the end
  of the scanned slice \<open>v\<close>:
  \<^item> when the byte is the whole slice, the clamped length is 0 and the slice is
    returned as it is, in the buffer that still borrows it;
  \<^item> otherwise, when \<open>i\<close> plus the clamped length \<open>URLEscape_u8len v (v ! i)\<close> (the declared
    length, or \<open>len(v) - 1\<close> when the declared length exceeds \<open>len(v)\<close>) still runs past
    the end, the pending bytes \<open>v[n:i]\<close> are flushed and the byte is left out: the result
    is what was written so far, \<open>v[n:i]\<close> and the output for the bytes from \<open>i + 1\<close> on;
  \<^item> otherwise (the declared length exceeds \<open>len(v)\<close> and the clamped length fits) the
    bytes \<open>v[i : i + u8len]\<close> are percent-escaped by \<open>url.QueryEscape\<close>, and the scan goes on
    behind them.
\<close>

theorem URLEscape_overrunning_lead_byte:
  "(\<exists>res. URLEscape lookup w rr = Some res)
   \<and> (URLEscape_scanned lookup v0 resolveReference = Some v
      \<and> (i, n, cob) \<in> set (URLEscape_trace v 0 0 (NewCopyOnWriteBuffer v))
      \<and> i < length v
      \<and> (UTF8Len (v ! i) = 2 \<or> UTF8Len (v ! i) = 3 \<or> UTF8Len (v ! i) = 4)
      \<and> int (length v) < int i + UTF8Len (v ! i) \<longrightarrow>
        (if length v = 1
         then URLEscape_cob lookup v0 resolveReference = Some \<lparr>buffer = v, copied = False\<rparr>
         else if int (length v) < int i + URLEscape_u8len v (v ! i)
         then URLEscape lookup v0 resolveReference =
                Some (written cob @ take (i - n) (drop n v) @ URLEscape_rest v (i + 1))
         else URLEscape lookup v0 resolveReference =
                Some (written cob @ take (i - n) (drop n v)
                      @ QueryEscape (take (nat (URLEscape_u8len v (v ! i))) (drop i v))
                      @ URLEscape_rest v (i + nat (URLEscape_u8len v (v ! i))))))"
proof (intro conjI impI)
  show "\<exists>res. URLEscape lookup w rr = Some res" by (rule URLEscape_total)
next
  assume a: "URLEscape_scanned lookup v0 resolveReference = Some v
      \<and> (i, n, cob) \<in> set (URLEscape_trace v 0 0 (NewCopyOnWriteBuffer v))
      \<and> i < length v
      \<and> (UTF8Len (v ! i) = 2 \<or> UTF8Len (v ! i) = 3 \<or> UTF8Len (v ! i) = 4)
      \<and> int (length v) < int i + UTF8Len (v ! i)"
  then have sc: "URLEscape_scanned lookup v0 resolveReference = Some v"
    and tr: "(i, n, cob) \<in> set (URLEscape_trace v 0 0 (NewCopyOnWriteBuffer v))"
    and i: "i < length v"
    and c: "UTF8Len (v ! i) = 2 \<or> UTF8Len (v ! i) = 3 \<or> UTF8Len (v ! i) = 4"
    by simp_all
  let ?u = "URLEscape_u8len v (v ! i)"
  show "if length v = 1
         then URLEscape_cob lookup v0 resolveReference = Some \<lparr>buffer = v, copied = False\<rparr>
         else if int (length v) < int i + ?u
         then URLEscape lookup v0 resolveReference =
                Some (written cob @ take (i - n) (drop n v) @ URLEscape_rest v (i + 1))
         else URLEscape lookup v0 resolveReference =
                Some (written cob @ take (i - n) (drop n v)
                      @ QueryEscape (take (nat ?u) (drop i v)) @ URLEscape_rest v (i + nat ?u))"
  proof (cases "length v = 1")
    case True
    with i have i0: "i = 0" by simp
    from True obtain b where v: "v = [b]" by (cases v) simp_all
    from c i0 v have cb: "UTF8Len b = 2 \<or> UTF8Len b = 3 \<or> UTF8Len b = 4" by simp
    have "URLEscape_loop [b] 0 0 (NewCopyOnWriteBuffer [b])
        = URLEscape_loop [b] 1 1 (NewCopyOnWriteBuffer [b])"
      using URLEscape_step_single [OF cb] by (intro URLEscape_loop_step) simp_all
    also have "\<dots> = Some (1, NewCopyOnWriteBuffer [b])" by (intro URLEscape_loop_end) simp
    finally have "URLEscape_cob lookup v0 resolveReference = Some \<lparr>buffer = v, copied = False\<rparr>"
      using sc v by (simp add: URLEscape_cob_scanned IsCopied_def NewCopyOnWriteBuffer_def)
    with True show ?thesis by simp
  next
    case False
    from URLEscape_trace_state [OF False _ _ _ tr]
    have inv: "n \<le> i" "\<not> copied cob \<longrightarrow> n = 0 \<and> buffer cob = v"
      and run: "URLEscape_loop v 0 0 (NewCopyOnWriteBuffer v) = URLEscape_loop v i n cob"
      by (simp_all add: NewCopyOnWriteBuffer_def)
    note lb = lead_byte [OF c]
    from c have t: "utf8lenTable ! unat (v ! i) \<noteq> 99" by (auto simp: UTF8Len_def)
    from i False have "1 < length v" by arith
    then have nz: "?u \<noteq> 0" "0 < ?u" using URLEscape_u8len_pos [of v "v ! i"] by simp_all
    show ?thesis
    proof (cases "int (length v) < int i + ?u")
      case over: True
      then have o: "length v < i + nat ?u" using nz(2) by arith
      have st: "URLEscape_step v i n cob = Some (i + 1, i + 1, Write cob (take (i - n) (drop n v)))"
        using lb t nz(1) o by (simp add: URLEscape_step_u8len [OF inv(1) i])
      have "URLEscape_loop v i n cob
          = URLEscape_loop v (i + 1) (i + 1) (Write cob (take (i - n) (drop n v)))"
        using inv(1) i st by (rule URLEscape_loop_step)
      moreover from URLEscape_loop_output [OF False, of "i + 1" "i + 1" "Write cob (take (i - n) (drop n v))"] i
      obtain n' cob' where "URLEscape_loop v (i + 1) (i + 1) (Write cob (take (i - n) (drop n v))) = Some (n', cob')"
        "n' \<le> length v"
        "flushed v n' cob' = written (Write cob (take (i - n) (drop n v))) @ URLEscape_rest v (i + 1)"
        by auto
      ultimately have "URLEscape lookup v0 resolveReference =
          Some (written cob @ take (i - n) (drop n v) @ URLEscape_rest v (i + 1))"
        using URLEscape_flushed [OF sc, of n' cob'] run by (simp add: written_def)
      with False over show ?thesis by simp
    next
      case fits: False
      then have o: "\<not> length v < i + nat ?u" using nz(2) by arith
      let ?cob1 = "Write (Write cob (take (i - n) (drop n v))) (QueryEscape (take (nat ?u) (drop i v)))"
      have st: "URLEscape_step v i n cob = Some (i + nat ?u, i + nat ?u, ?cob1)"
        using lb t nz(1) o by (simp add: URLEscape_step_u8len [OF inv(1) i])
      have "URLEscape_loop v i n cob = URLEscape_loop v (i + nat ?u) (i + nat ?u) ?cob1"
        using inv(1) i st by (rule URLEscape_loop_step)
      moreover from URLEscape_loop_output [OF False, of "i + nat ?u" "i + nat ?u" ?cob1] o
      obtain n' cob' where "URLEscape_loop v (i + nat ?u) (i + nat ?u) ?cob1 = Some (n', cob')"
        "n' \<le> length v"
        "flushed v n' cob' = written ?cob1 @ URLEscape_rest v (i + nat ?u)"
        by auto
      ultimately have "URLEscape lookup v0 resolveReference =
          Some (written cob @ take (i - n) (drop n v)
                @ QueryEscape (take (nat ?u) (drop i v)) @ URLEscape_rest v (i + nat ?u))"
        using URLEscape_flushed [OF sc, of n' cob'] run by (simp add: written_def)
      with False fits show ?thesis by simp
    qed
  qed
qed

theorem URLEscape_overrunning_lead_byte_counterexample:
  "UTF8Len 0xC3 = 2 \<and> URLEscape no_entities [0x61, 0xC3] False = Some [0x61]
   \<and> UTF8Len 0xE3 = 3 \<and> URLEscape no_entities [0x61, 0xE3] False = Some (bytes ''a%E3'')"
  by (simp add: url_eval scan_eval cong: option_bind_weak_cong)

theorem URLEscape_overrunning_lead_byte_witness:
  "(\<exists>res. URLEscape no_entities [0x61, 0xC3] False = Some res)
   \<and> URLEscape_cob no_entities [0xC3] False = Some \<lparr>buffer = [0xC3], copied = False\<rparr>
   \<and> URLEscape no_entities [0x20, 0xC3] False = Some (bytes ''%20'')
   \<and> URLEscape no_entities [0x20, 0x61, 0xE3, 0x20] False = Some (bytes ''%20a%20'')
   \<and> URLEscape no_entities [0xE3, 0x81] False = Some (bytes ''%E3'' @ [0x81])
   \<and> URLEscape no_entities (bytes ''&#32;'' @ [0xC3]) True = Some (bytes ''%20'')"
proof -
  have a: "\<exists>res. URLEscape no_entities [0x61, 0xC3] False = Some res"
    using URLEscape_overrunning_lead_byte [of no_entities "[0x61, 0xC3]" False] by simp
  have b: "URLEscape_cob no_entities [0xC3] False = Some \<lparr>buffer = [0xC3], copied = False\<rparr>"
    using URLEscape_overrunning_lead_byte [of no_entities "[]" False "[0xC3]" False "[0xC3]" 0 0 "NewCopyOnWriteBuffer [0xC3]"]
    by (simp add: url_trace_eval url_eval scan_eval cong: option_bind_weak_cong)
  have c: "URLEscape no_entities [0x20, 0xC3] False = Some (bytes ''%20'')"
    using URLEscape_overrunning_lead_byte [of no_entities "[]" False "[0x20, 0xC3]" False "[0x20, 0xC3]" 1 1
        "\<lparr>buffer = bytes ''%20'', copied = True\<rparr>"]
    by (simp add: url_trace_eval url_eval scan_eval cong: option_bind_weak_cong)
  have d: "URLEscape no_entities [0x20, 0x61, 0xE3, 0x20] False = Some (bytes ''%20a%20'')"
    using URLEscape_overrunning_lead_byte [of no_entities "[]" False "[0x20, 0x61, 0xE3, 0x20]" False "[0x20, 0x61, 0xE3, 0x20]" 2 1
        "\<lparr>buffer = bytes ''%20'', copied = True\<rparr>"]
    by (simp add: url_trace_eval url_eval scan_eval cong: option_bind_weak_cong)
  have e: "URLEscape no_entities [0xE3, 0x81] False = Some (bytes ''%E3'' @ [0x81])"
    using URLEscape_overrunning_lead_byte [of no_entities "[]" False "[0xE3, 0x81]" False "[0xE3, 0x81]" 0 0
        "NewCopyOnWriteBuffer [0xE3, 0x81]"]
    by (simp add: url_trace_eval url_eval scan_eval cong: option_bind_weak_cong)
  have sc: "URLEscape_scanned no_entities (bytes ''&#32;'' @ [0xC3]) True = Some [0x20, 0xC3]"
    by (simp add: URLEscape_scanned_def UnescapePunctuations_def UnescapePunctuations_cob_def
        UnescapePunctuations_loop.simps ResolveEntityNames_def ResolveEntityNames_cob_def
        ResolveEntityNames_loop.simps ResolveEntityNames_match_def no_entities_def
        numeric_eval rune_eval scan_eval cong: option_bind_weak_cong)
  have f: "URLEscape no_entities (bytes ''&#32;'' @ [0xC3]) True = Some (bytes ''%20'')"
    using URLEscape_overrunning_lead_byte [of no_entities "[]" False "bytes ''&#32;'' @ [0xC3]" True "[0x20, 0xC3]" 1 1
        "\<lparr>buffer = bytes ''%20'', copied = True\<rparr>"] sc
    by (simp add: URLEscape_trace.simps URLEscape_rest_def URLEscape_u8len_def written_def flushed_def
        url_eval scan_eval cong: option_bind_weak_cong)
  from a b c d e f show ?thesis by simp
qed


section \<open>EscapeHTML and the way back\<close>

text \<open>
  The specification of \<open>EscapeHTML\<close>, in the words of the spec: each of the four bytes is
  replaced by its named reference, every other byte passes through. \<open>four_entities\<close> is a
  table with the four names and nothing else.
\<close>

definition EscapeHTML_byte_spec :: "byte \<Rightarrow> byte list" where
  "EscapeHTML_byte_spec c =
     (if c = 34 then bytes ''&quot;'' else if c = 38 then bytes ''&amp;''
      else if c = 60 then bytes ''&lt;'' else if c = 62 then bytes ''&gt;'' else [c])"

definition EscapeHTML_spec :: "byte list \<Rightarrow> byte list" where
  "EscapeHTML_spec v = concat (map EscapeHTML_byte_spec v)"

definition four_entities :: "byte list \<Rightarrow> byte list option" where
  "four_entities name =
     (if name = bytes ''quot'' then Some [34] else if name = bytes ''amp'' then Some [38]
      else if name = bytes ''lt'' then Some [60] else if name = bytes ''gt'' then Some [62]
      else None)"

lemma htmlEscapeTable_nth:
  "n < 256 \<Longrightarrow> htmlEscapeTable ! n =
     (if n = 34 then Some (bytes ''&quot;'') else if n = 38 then Some (bytes ''&amp;'')
      else if n = 60 then Some (bytes ''&lt;'') else if n = 62 then Some (bytes ''&gt;'') else None)"
  by (auto simp: htmlEscapeTable_def nth_append nth_Cons')

lemma htmlEscapeTable_byte:
  "htmlEscapeTable ! unat (c :: byte) =
     (if c = 34 then Some (bytes ''&quot;'') else if c = 38 then Some (bytes ''&amp;'')
      else if c = 60 then Some (bytes ''&lt;'') else if c = 62 then Some (bytes ''&gt;'') else None)"
proof -
  have "unat c < 256" using unsigned_less [of c, where 'a = nat] by simp
  from htmlEscapeTable_nth [OF this] show ?thesis
    by (simp add: word_unat_eq_iff)
qed

lemma escaped_or_self:
  "(case htmlEscapeTable ! unat c of Some e \<Rightarrow> e | None \<Rightarrow> [c]) = EscapeHTML_byte_spec c"
  by (simp add: htmlEscapeTable_byte EscapeHTML_byte_spec_def)

lemma EscapeHTML_loop_spec:
  "n \<le> i \<Longrightarrow> i \<le> length v \<Longrightarrow> (\<not> copied cob \<Longrightarrow> n = 0 \<and> buffer cob = v) \<Longrightarrow>
   \<exists>n' cob'. EscapeHTML_loop v i n cob = Some (n', cob') \<and> n' \<le> length v
     \<and> flushed v n' cob' = (if copied cob then buffer cob else []) @ take (i - n) (drop n v)
          @ EscapeHTML_spec (drop i v)"
proof (induction "length v - i" arbitrary: i n cob rule: less_induct)
  case less
  show ?case
  proof (cases "i < length v")
    case False
    with less.prems have "i = length v" by simp
    then show ?thesis using less.prems
      by (subst EscapeHTML_loop.simps) (auto simp: flushed_def EscapeHTML_spec_def)
  next
    case True
    have d: "drop i v = v ! i # drop (Suc i) v" using True by (simp add: Cons_nth_drop_Suc)
    show ?thesis
    proof (cases "htmlEscapeTable ! unat (v ! i)")
      case None
      then have e: "EscapeHTML_byte_spec (v ! i) = [v ! i]"
        using escaped_or_self [of "v ! i"] by simp
      have step: "EscapeHTML_loop v i n cob = EscapeHTML_loop v (i + 1) n cob"
        using True None by (subst EscapeHTML_loop.simps) simp
      have "\<exists>n' cob'. EscapeHTML_loop v (i + 1) n cob = Some (n', cob') \<and> n' \<le> length v
        \<and> flushed v n' cob' = (if copied cob then buffer cob else []) @ take (i + 1 - n) (drop n v)
          @ EscapeHTML_spec (drop (i + 1) v)"
        using True less.prems by (intro less.hyps) auto
      then show ?thesis unfolding step using True less.prems e d
        by (auto simp: take_span_Suc EscapeHTML_spec_def)
    next
      case (Some esc)
      then have e: "EscapeHTML_byte_spec (v ! i) = esc"
        using escaped_or_self [of "v ! i"] by simp
      let ?cob = "Write (Write cob (take (i - n) (drop n v))) esc"
      have step: "EscapeHTML_loop v i n cob = EscapeHTML_loop v (i + 1) (i + 1) ?cob"
        using True Some less.prems by (subst EscapeHTML_loop.simps) simp
      have "\<exists>n' cob'. EscapeHTML_loop v (i + 1) (i + 1) ?cob = Some (n', cob') \<and> n' \<le> length v
        \<and> flushed v n' cob' = (if copied ?cob then buffer ?cob else []) @ take (i + 1 - (i + 1)) (drop (i + 1) v)
          @ EscapeHTML_spec (drop (i + 1) v)"
        using True by (intro less.hyps) auto
      then show ?thesis unfolding step using e d
        by (auto simp: EscapeHTML_spec_def)
    qed
  qed
qed

lemma EscapeHTML_refines_spec: "EscapeHTML v = Some (EscapeHTML_spec v)"
proof -
  obtain n' cob' where l: "EscapeHTML_loop v 0 0 (NewCopyOnWriteBuffer v) = Some (n', cob')"
    and n': "n' \<le> length v"
    and f: "flushed v n' cob' = EscapeHTML_spec v"
    using EscapeHTML_loop_spec [of 0 0 v "NewCopyOnWriteBuffer v"]
    by (auto simp: NewCopyOnWriteBuffer_def)
  show ?thesis
    using l n' f
    by (cases "copied cob'")
       (simp_all add: EscapeHTML_def EscapeHTML_cob_def IsCopied_def Bytes_def flushed_def)
qed

lemma ResolveEntityNames_loop_step_plain:
  "i < length source \<Longrightarrow> source ! i \<noteq> 38 \<Longrightarrow>
   ResolveEntityNames_loop lookup source i n cob = ResolveEntityNames_loop lookup source (i + 1) n cob"
  by (subst ResolveEntityNames_loop.simps) (simp add: index_def)

lemma ResolveEntityNames_match_named:
  assumes name: "list_all IsAlphaNumeric name" "name \<noteq> []"
    and known: "lookup name = Some characters"
    and n: "n \<le> length X"
  shows "ResolveEntityNames_match lookup (X @ 38 # name @ 59 # post) (length X) n cob
     = Some (Some (length X + 1 + length name, length X + 1 + length name + 1,
         Write (Write cob (take (length X - n) (drop n (X @ 38 # name @ 59 # post)))) characters))"
proof -
  let ?src = "X @ 38 # name @ 59 # post"
  let ?i = "length X"
  have stop: "\<not> IsAlphaNumeric 59" by (simp add: IsAlphaNumeric_def)
  have "ReadWhile_loop ((X @ [38]) @ name @ 59 # post) (length (X @ [38])) (length ?src)
          IsAlphaNumeric False
        = Some (length (X @ [38]) + length name, False \<or> name \<noteq> [])"
    using name(1) stop by (rule ReadWhile_loop_run) simp
  then have rw: "ReadWhile ?src (?i + 1, length ?src) IsAlphaNumeric = Some (?i + 1 + length name, True)"
    using name(2) by (simp add: ReadWhile_def)
  have first: "?src ! (?i + 1) = hd name"
    using name(2) by (cases name) (simp_all add: nth_append)
  have "IsAlphaNumeric (hd name)" using name by (cases name) simp_all
  then have nh: "hd name \<noteq> 35" by (auto simp: IsAlphaNumeric_def)
  have hash: "(if ?i + 1 < length ?src then map_option (\<lambda>c. c = 35) (index ?src (?i + 1))
                 else Some False) = Some False"
    using first nh by (simp add: index_def)
  have semi: "(if ?i + 1 + length name < length ?src
                then map_option (\<lambda>c. c = 59) (index ?src (?i + 1 + length name)) else Some False)
              = Some True"
    by (simp add: index_def nth_append)
  have nm: "slice ?src (?i + 1) (?i + 1 + length name) = Some name"
    by (simp add: slice_def)
  have sl: "slice ?src n ?i = Some (take (?i - n) (drop n ?src))"
    using n by (simp add: slice_def)
  show ?thesis
    unfolding ResolveEntityNames_match_def Let_def
    by (simp only: hash rw semi nm sl known bind.bind_lunit split_conv simp_thms if_True if_False
          option.case)
qed

lemma ResolveEntityNames_loop_step_named:
  assumes name: "list_all IsAlphaNumeric name" "name \<noteq> []"
    and known: "lookup name = Some characters"
    and n: "n \<le> length X"
  shows "ResolveEntityNames_loop lookup (X @ 38 # name @ 59 # post) (length X) n cob
     = ResolveEntityNames_loop lookup (X @ 38 # name @ 59 # post)
         (length (X @ 38 # name @ [59])) (length (X @ 38 # name @ [59]))
         (Write (Write cob (take (length X - n) (drop n (X @ 38 # name @ 59 # post)))) characters)"
proof -
  note m = ResolveEntityNames_match_named
    [where lookup = lookup and name = name and characters = characters and post = post
       and cob = cob, OF name known n]
  have i: "length X < length (X @ 38 # name @ 59 # post)" by simp
  have c: "index (X @ 38 # name @ 59 # post) (length X) = Some 38" by (simp add: index_def)
  have e: "length X + 1 + length name + 1 = length (X @ 38 # name @ [59])" by simp
  show ?thesis
    by (subst ResolveEntityNames_loop.simps)
       (simp only: i c m e if_True bind.bind_lunit simp_thms option.case split_conv)
qed

lemma ResolveEntityNames_on_escaped:
  assumes quot: "lookup (bytes ''quot'') = Some [34]"
    and lt: "lookup (bytes ''lt'') = Some [60]"
    and gt: "lookup (bytes ''gt'') = Some [62]"
  shows "38 \<notin> set rest \<Longrightarrow> n \<le> length X \<Longrightarrow>
   (\<not> copied cob \<Longrightarrow> n = 0 \<and> buffer cob = X @ EscapeHTML_spec rest) \<Longrightarrow>
   \<exists>n' cob'. ResolveEntityNames_loop lookup (X @ EscapeHTML_spec rest) (length X) n cob = Some (n', cob')
     \<and> n' \<le> length (X @ EscapeHTML_spec rest)
     \<and> flushed (X @ EscapeHTML_spec rest) n' cob'
         = (if copied cob then buffer cob else []) @ take (length X - n) (drop n X) @ rest"
proof (induction rest arbitrary: X n cob)
  case Nil
  then show ?case
    by (subst ResolveEntityNames_loop.simps) (auto simp: EscapeHTML_spec_def flushed_def)
next
  case (Cons c rest)
  let ?src = "X @ EscapeHTML_spec (c # rest)"
  from Cons.prems have c38: "c \<noteq> 38" and r38: "38 \<notin> set rest" by auto
  have src: "?src = X @ EscapeHTML_byte_spec c @ EscapeHTML_spec rest"
    by (simp add: EscapeHTML_spec_def)
  show ?case
  proof (cases "c = 34 \<or> c = 60 \<or> c = 62")
    case False
    with c38 have e: "EscapeHTML_byte_spec c = [c]" by (simp add: EscapeHTML_byte_spec_def)
    have src': "?src = (X @ [c]) @ EscapeHTML_spec rest" using src e by simp
    have step: "ResolveEntityNames_loop lookup ?src (length X) n cob
        = ResolveEntityNames_loop lookup ((X @ [c]) @ EscapeHTML_spec rest) (length (X @ [c])) n cob"
      unfolding src' using c38
      by (subst ResolveEntityNames_loop_step_plain) (simp_all add: nth_append)
    have "\<exists>n' cob'. ResolveEntityNames_loop lookup ((X @ [c]) @ EscapeHTML_spec rest) (length (X @ [c])) n cob
          = Some (n', cob')
       \<and> n' \<le> length ((X @ [c]) @ EscapeHTML_spec rest)
       \<and> flushed ((X @ [c]) @ EscapeHTML_spec rest) n' cob'
          = (if copied cob then buffer cob else []) @ take (length (X @ [c]) - n) (drop n (X @ [c])) @ rest"
      using r38 Cons.prems(2,3) src' by (intro Cons.IH) simp_all
    then show ?thesis
      unfolding step unfolding src' using Cons.prems(2)
      by (auto simp: Suc_diff_le)
  next
    case True
    then obtain name where e: "EscapeHTML_byte_spec c = 38 # name @ [59]"
      and name: "list_all IsAlphaNumeric name" "name \<noteq> []"
      and known: "lookup name = Some [c]"
      using quot lt gt
      by (auto simp: EscapeHTML_byte_spec_def bytes_def IsAlphaNumeric_def)
    let ?cob = "Write (Write cob (take (length X - n) (drop n ?src))) [c]"
    have src': "?src = X @ 38 # name @ 59 # EscapeHTML_spec rest" using src e by simp
    have src'': "?src = (X @ 38 # name @ [59]) @ EscapeHTML_spec rest" using src e by simp
    have step: "ResolveEntityNames_loop lookup ?src (length X) n cob
        = ResolveEntityNames_loop lookup ((X @ 38 # name @ [59]) @ EscapeHTML_spec rest)
            (length (X @ 38 # name @ [59])) (length (X @ 38 # name @ [59])) ?cob"
      using ResolveEntityNames_loop_step_named
        [where lookup = lookup and name = name and characters = "[c]"
           and post = "EscapeHTML_spec rest" and cob = cob, OF name known Cons.prems(2)]
      unfolding src' by simp
    have "\<exists>n' cob'. ResolveEntityNames_loop lookup ((X @ 38 # name @ [59]) @ EscapeHTML_spec rest)
            (length (X @ 38 # name @ [59])) (length (X @ 38 # name @ [59])) ?cob = Some (n', cob')
       \<and> n' \<le> length ((X @ 38 # name @ [59]) @ EscapeHTML_spec rest)
       \<and> flushed ((X @ 38 # name @ [59]) @ EscapeHTML_spec rest) n' cob'
          = (if copied ?cob then buffer ?cob else [])
            @ take (length (X @ 38 # name @ [59]) - length (X @ 38 # name @ [59]))
                (drop (length (X @ 38 # name @ [59])) (X @ 38 # name @ [59])) @ rest"
      using r38 by (intro Cons.IH) simp_all
    then show ?thesis
      unfolding step unfolding src'' using Cons.prems(2)
      by auto
  qed
qed

text \<open>
  Claim C6. \<open>EscapeHTML\<close> replaces each of the four bytes by its named reference and copies
  every other byte; and for an input without \<open>&\<close>, resolving the named references of the
  result with a table that knows \<open>quot\<close>, \<open>amp\<close>, \<open>lt\<close> and \<open>gt\<close> gives the input back.
\<close>

theorem EscapeHTML_ResolveEntityNames_roundtrip:
  "EscapeHTML v = Some (EscapeHTML_spec v)
   \<and> (38 \<notin> set v \<and> lookup (bytes ''quot'') = Some [34] \<and> lookup (bytes ''amp'') = Some [38]
        \<and> lookup (bytes ''lt'') = Some [60] \<and> lookup (bytes ''gt'') = Some [62] \<longrightarrow>
      ResolveEntityNames lookup (EscapeHTML_spec v) = Some v)"
proof (intro conjI impI)
  show "EscapeHTML v = Some (EscapeHTML_spec v)" by (rule EscapeHTML_refines_spec)
next
  assume a: "38 \<notin> set v \<and> lookup (bytes ''quot'') = Some [34] \<and> lookup (bytes ''amp'') = Some [38]
        \<and> lookup (bytes ''lt'') = Some [60] \<and> lookup (bytes ''gt'') = Some [62]"
  let ?e = "EscapeHTML_spec v"
  have "\<exists>n' cob'. ResolveEntityNames_loop lookup ([] @ ?e) (length ([] :: byte list)) 0
          (NewCopyOnWriteBuffer ?e) = Some (n', cob')
     \<and> n' \<le> length ([] @ ?e)
     \<and> flushed ([] @ ?e) n' cob'
         = (if copied (NewCopyOnWriteBuffer ?e) then buffer (NewCopyOnWriteBuffer ?e) else [])
           @ take (length ([] :: byte list) - 0) (drop 0 []) @ v"
    using a by (intro ResolveEntityNames_on_escaped) (simp_all add: NewCopyOnWriteBuffer_def)
  then obtain n' cob' where l: "ResolveEntityNames_loop lookup ?e 0 0 (NewCopyOnWriteBuffer ?e) = Some (n', cob')"
    and n': "n' \<le> length ?e" and f: "flushed ?e n' cob' = v"
    by (auto simp: NewCopyOnWriteBuffer_def)
  show "ResolveEntityNames lookup ?e = Some v"
    using l n' f
    by (cases "copied cob'")
       (simp_all add: ResolveEntityNames_def ResolveEntityNames_cob_def IsCopied_def Bytes_def
          flushed_def)
qed

theorem EscapeHTML_ResolveEntityNames_roundtrip_witness:
  "EscapeHTML (bytes ''a<b> c'' @ [34]) = Some (bytes ''a&lt;b&gt; c&quot;'')
   \<and> ResolveEntityNames four_entities (bytes ''a&lt;b&gt; c&quot;'') = Some (bytes ''a<b> c'' @ [34])"
  using EscapeHTML_ResolveEntityNames_roundtrip [of "bytes ''a<b> c'' @ [34]" four_entities]
  by (simp add: bytes_def EscapeHTML_spec_def EscapeHTML_byte_spec_def four_entities_def)

section \<open>The no-op fast path\<close>

text \<open>
  What triggers a write, function by function. \<open>follows P Q v\<close> holds when \<open>v\<close> has a byte
  that satisfies \<open>P\<close> immediately followed by one that satisfies \<open>Q\<close>.
  \<open>folding_trigger\<close> is the test of \<open>DoFullUnicodeCaseFolding\<close> at an index: an ASCII
  capital letter, or the start of a well-formed rune that has an entry in the table.
  \<open>URLEscape_plain\<close> holds for an input made of bytes that pass (URL-safe bytes and bytes
  that cannot start a sequence) and of percent-escapes as the loop reads them: \<open>%\<close>, a
  hexadecimal digit and one more byte.
\<close>

fun follows :: "(byte \<Rightarrow> bool) \<Rightarrow> (byte \<Rightarrow> bool) \<Rightarrow> byte list \<Rightarrow> bool" where
  "follows P Q (c # d # rest) = (P c \<and> Q d \<or> follows P Q (d # rest))"
| "follows P Q [c] = False"
| "follows P Q [] = False"

definition folding_trigger :: "(int \<Rightarrow> int list option) \<Rightarrow> byte list \<Rightarrow> nat \<Rightarrow> bool" where
  "folding_trigger unicodeCaseFoldings v i =
     (if v ! i < 0xb5 then 0x41 \<le> v ! i \<and> v ! i \<le> 0x5a
      else RuneStart (v ! i) \<and> fst (DecodeRune (drop i v)) \<noteq> RuneError
           \<and> unicodeCaseFoldings (fst (DecodeRune (drop i v))) \<noteq> None)"

fun URLEscape_plain :: "byte list \<Rightarrow> bool" where
  "URLEscape_plain [] = True"
| "URLEscape_plain (c # s) =
     (if passes c then URLEscape_plain s
      else (case s of
              h # x # t \<Rightarrow> c = 37 \<and> IsHexDecimal h \<and> URLEscape_plain t
            | _ \<Rightarrow> False))"

text \<open>
  A table with two entries, for the examples: U+00DF folds to \<open>ss\<close>, U+00C9 to U+00E9.
\<close>

definition some_foldings :: "int \<Rightarrow> int list option" where
  "some_foldings r = (if r = 0xDF then Some [0x73, 0x73] else if r = 0xC9 then Some [0xE9] else None)"

lemma EscapeHTML_loop_quiet:
  "list_all (\<lambda>c. c \<notin> {34, 38, 60, 62}) rest \<Longrightarrow>
   EscapeHTML_loop (X @ rest) (length X) n cob = Some (n, cob)"
proof (induction rest arbitrary: X)
  case Nil
  then show ?case by (subst EscapeHTML_loop.simps) simp
next
  case (Cons c rest)
  then have "htmlEscapeTable ! unat c = None" by (simp add: htmlEscapeTable_byte)
  then have "EscapeHTML_loop (X @ c # rest) (length X) n cob
      = EscapeHTML_loop ((X @ [c]) @ rest) (length (X @ [c])) n cob"
    by (subst EscapeHTML_loop.simps) (simp add: index_def)
  also have "\<dots> = Some (n, cob)" using Cons.prems by (intro Cons.IH) simp
  finally show ?case .
qed

lemma UnescapePunctuations_loop_quiet:
  "\<not> follows (\<lambda>c. c = 92) IsPunct rest \<Longrightarrow>
   UnescapePunctuations_loop (X @ rest) (length X) n cob = Some (n, cob)"
proof (induction rest arbitrary: X)
  case Nil
  then show ?case by (subst UnescapePunctuations_loop.simps) simp
next
  case (Cons c rest)
  have q: "\<not> follows (\<lambda>c. c = 92) IsPunct rest" using Cons.prems by (cases rest) simp_all
  have "UnescapePunctuations_loop (X @ c # rest) (length X) n cob
      = UnescapePunctuations_loop ((X @ [c]) @ rest) (length (X @ [c])) n cob"
  proof (cases rest)
    case Nil
    then show ?thesis
      by (subst UnescapePunctuations_loop.simps) (simp add: index_def Let_def)
  next
    case (Cons d rest')
    with Cons.prems have "\<not> (c = 92 \<and> IsPunct d)" by simp
    with Cons show ?thesis
      by (subst UnescapePunctuations_loop.simps) (auto simp: index_def Let_def nth_append)
  qed
  also have "\<dots> = Some (n, cob)" using q by (rule Cons.IH)
  finally show ?case .
qed

lemma ResolveNumericReferences_loop_quiet:
  "\<not> follows (\<lambda>c. c = 38) (\<lambda>c. c = 35) rest \<Longrightarrow>
   ResolveNumericReferences_loop (X @ rest) (length X) n cob = Some (n, cob)"
proof (induction rest arbitrary: X)
  case Nil
  then show ?case by (subst ResolveNumericReferences_loop.simps) simp
next
  case (Cons c rest)
  have q: "\<not> follows (\<lambda>c. c = 38) (\<lambda>c. c = 35) rest" using Cons.prems by (cases rest) simp_all
  have m: "c = 38 \<Longrightarrow> ResolveNumericReferences_match (X @ c # rest) (length X) n cob = Some None"
    using Cons.prems
    by (cases rest) (simp_all add: ResolveNumericReferences_match_def Let_def index_def nth_append)
  have "ResolveNumericReferences_loop (X @ c # rest) (length X) n cob
      = ResolveNumericReferences_loop ((X @ [c]) @ rest) (length (X @ [c])) n cob"
    using m by (subst ResolveNumericReferences_loop.simps) (simp add: index_def)
  also have "\<dots> = Some (n, cob)" using q by (rule Cons.IH)
  finally show ?case .
qed

lemma ReadWhile_loop_none:
  "lo < hi \<longrightarrow> lo < length source \<and> \<not> pred (source ! lo) \<Longrightarrow>
   ReadWhile_loop source lo hi pred ok = Some (lo, ok)"
  by (subst ReadWhile_loop.simps) (simp add: index_def)

lemma ResolveEntityNames_loop_quiet:
  "\<not> follows (\<lambda>c. c = 38) IsAlphaNumeric rest \<Longrightarrow>
   ResolveEntityNames_loop lookup (X @ rest) (length X) n cob = Some (n, cob)"
proof (induction rest arbitrary: X)
  case Nil
  then show ?case by (subst ResolveEntityNames_loop.simps) simp
next
  case (Cons c rest)
  have q: "\<not> follows (\<lambda>c. c = 38) IsAlphaNumeric rest" using Cons.prems by (cases rest) simp_all
  have m: "ResolveEntityNames_match lookup (X @ c # rest) (length X) n cob = Some None" if "c = 38"
  proof -
    have "ReadWhile (X @ c # rest) (length X + 1, length (X @ c # rest)) IsAlphaNumeric
        = Some (length X + 1, False)"
      unfolding ReadWhile_def fst_conv snd_conv
      using Cons.prems that by (intro ReadWhile_loop_none) (cases rest, simp_all add: nth_append)
    moreover have
      "(if length X + 1 < length (X @ c # rest)
        then map_option (\<lambda>c. c = 35) (index (X @ c # rest) (length X + 1))
        else Some False)
       = Some (length X + 1 < length (X @ c # rest) \<and> (X @ c # rest) ! (length X + 1) = 35)"
      by (simp add: index_def)
    ultimately show ?thesis
      unfolding ResolveEntityNames_match_def Let_def
      by (simp only: bind.bind_lunit split_conv simp_thms if_True if_False if_cancel)
  qed
  have "ResolveEntityNames_loop lookup (X @ c # rest) (length X) n cob
      = ResolveEntityNames_loop lookup ((X @ [c]) @ rest) (length (X @ [c])) n cob"
    using m by (subst ResolveEntityNames_loop.simps) (simp add: index_def)
  also have "\<dots> = Some (n, cob)" using q by (rule Cons.IH)
  finally show ?case .
qed

lemma DoFullUnicodeCaseFolding_loop_quiet:
  "i \<le> length v \<Longrightarrow> list_all (\<lambda>k. \<not> folding_trigger t v k) [i..<length v] \<Longrightarrow>
   DoFullUnicodeCaseFolding_loop t v i n cob = Some (n, cob)"
proof (induction "length v - i" arbitrary: i rule: less_induct)
  case less
  show ?case
  proof (cases "i < length v")
    case False
    then show ?thesis by (subst DoFullUnicodeCaseFolding_loop.simps) simp
  next
    case True
    then have up: "[i..<length v] = i # [i + 1..<length v]" by (simp add: upt_conv_Cons)
    with less.prems have nt: "\<not> folding_trigger t v i"
      and rest: "list_all (\<lambda>k. \<not> folding_trigger t v k) [i + 1..<length v]" by simp_all
    have "DoFullUnicodeCaseFolding_loop t v (i + 1) n cob = Some (n, cob)"
      using True rest by (intro less.hyps) simp_all
    moreover have "DoFullUnicodeCaseFolding_loop t v i n cob
       = DoFullUnicodeCaseFolding_loop t v (i + 1) n cob"
    proof (cases "v ! i < 0xb5")
      case low: True
      with nt have "\<not> (0x41 \<le> v ! i \<and> v ! i \<le> 0x5a)" by (simp add: folding_trigger_def)
      with True low show ?thesis
        by (subst DoFullUnicodeCaseFolding_loop.simps) (auto simp: index_def)
    next
      case high: False
      show ?thesis
      proof (cases "RuneStart (v ! i)")
        case False
        with True high show ?thesis
          by (subst DoFullUnicodeCaseFolding_loop.simps) (simp add: index_def)
      next
        case start: True
        obtain r len where d: "DecodeRune (drop i v) = (r, len)" by (cases "DecodeRune (drop i v)")
        with nt high start have "r = RuneError \<or> t r = None"
          by (simp add: folding_trigger_def)
        with True high start d show ?thesis
          by (subst DoFullUnicodeCaseFolding_loop.simps)
             (auto simp: index_def slice_from_def slice_def)
      qed
    qed
    ultimately show ?thesis by simp
  qed
qed


lemma URLEscape_loop_quiet:
  "URLEscape_plain rest \<Longrightarrow>
   URLEscape_loop (X @ rest) (length X) 0 cob = Some (0, cob)"
proof (induction rest arbitrary: X rule: URLEscape_plain.induct)
  case 1
  then show ?case by (simp add: URLEscape_loop_end)
next
  case (2 c s)
  show ?case
  proof (cases "passes c")
    case True
    have "URLEscape_loop (X @ c # s) (length X) 0 cob = URLEscape_loop (X @ c # s) (length X + 1) 0 cob"
      using True by (intro URLEscape_loop_pass_step) simp_all
    also have "\<dots> = URLEscape_loop ((X @ [c]) @ s) (length (X @ [c])) 0 cob" by simp
    also have "\<dots> = Some (0, cob)" using True 2 by (intro "2.IH"(1)) simp_all
    finally show ?thesis .
  next
    case False
    with "2.prems" obtain h x t where s: "s = h # x # t" and c: "c = 37" and h: "IsHexDecimal h"
      and t: "URLEscape_plain t"
      by (auto split: list.splits)
    have "URLEscape_loop (X @ c # s) (length X) 0 cob = URLEscape_loop (X @ c # s) (length X + 3) 0 cob"
      using s c h by (intro URLEscape_loop_percent) (simp_all add: nth_append)
    also have "\<dots> = URLEscape_loop ((X @ [c, h, x]) @ t) (length (X @ [c, h, x])) 0 cob"
      using s by (simp add: numeral_3_eq_3)
    also have "\<dots> = Some (0, cob)" using False s t by (intro "2.IH"(2)) simp_all
    finally show ?thesis .
  qed
qed

text \<open>
  Claim C5. On an input without its triggers each function returns the buffer that
  still borrows the input: \<open>buffer\<close> is the input and \<open>copied\<close> is false, so \<open>Bytes\<close> is
  the input slice itself and no copy was made. The triggers are: for \<open>EscapeHTML\<close> the
  four bytes \<open>"\<close>, \<open>&\<close>, \<open><\<close>, \<open>>\<close>; for \<open>UnescapePunctuations\<close> a backslash followed by a
  punctuation byte; for \<open>ResolveNumericReferences\<close> the two bytes \<open>&#\<close>; for
  \<open>ResolveEntityNames\<close> a \<open>&\<close> followed by an alphanumeric byte; for \<open>URLEscape\<close> any byte
  outside \<open>URLEscape_plain\<close>, and with \<open>resolveReference\<close> set also the triggers of the
  three resolving passes; for \<open>DoFullUnicodeCaseFolding\<close> an ASCII capital letter or a
  rune with an entry in the folding table.
\<close>

theorem no_trigger_returns_input_slice:
  "(list_all (\<lambda>c. c \<notin> {34, 38, 60, 62}) v \<longrightarrow>
      EscapeHTML_cob v = Some \<lparr>buffer = v, copied = False\<rparr>)
   \<and> (\<not> follows (\<lambda>c. c = 92) IsPunct v \<longrightarrow>
      UnescapePunctuations_cob v = Some \<lparr>buffer = v, copied = False\<rparr>)
   \<and> (\<not> follows (\<lambda>c. c = 38) (\<lambda>c. c = 35) v \<longrightarrow>
      ResolveNumericReferences_cob v = Some \<lparr>buffer = v, copied = False\<rparr>)
   \<and> (\<not> follows (\<lambda>c. c = 38) IsAlphaNumeric v \<longrightarrow>
      ResolveEntityNames_cob lookup v = Some \<lparr>buffer = v, copied = False\<rparr>)
   \<and> (URLEscape_plain v \<longrightarrow>
      URLEscape_cob lookup v False = Some \<lparr>buffer = v, copied = False\<rparr>)
   \<and> (URLEscape_plain v \<and> \<not> follows (\<lambda>c. c = 92) IsPunct v
        \<and> \<not> follows (\<lambda>c. c = 38) (\<lambda>c. c = 35) v \<and> \<not> follows (\<lambda>c. c = 38) IsAlphaNumeric v \<longrightarrow>
      URLEscape_cob lookup v True = Some \<lparr>buffer = v, copied = False\<rparr>)
   \<and> (list_all (\<lambda>k. \<not> folding_trigger unicodeCaseFoldings v k) [0..<length v] \<longrightarrow>
      DoFullUnicodeCaseFolding_cob unicodeCaseFoldings v = Some \<lparr>buffer = v, copied = False\<rparr>)"
proof -
  let ?cob = "NewCopyOnWriteBuffer v"
  have e: "EscapeHTML_cob v = Some \<lparr>buffer = v, copied = False\<rparr>"
    if "list_all (\<lambda>c. c \<notin> {34, 38, 60, 62}) v"
    using EscapeHTML_loop_quiet [OF that, of "[]" 0 ?cob]
    by (simp add: EscapeHTML_cob_def IsCopied_def NewCopyOnWriteBuffer_def)
  have u: "UnescapePunctuations_cob v = Some \<lparr>buffer = v, copied = False\<rparr>"
    if "\<not> follows (\<lambda>c. c = 92) IsPunct v"
    using UnescapePunctuations_loop_quiet [OF that, of "[]" 0 ?cob]
    by (simp add: UnescapePunctuations_cob_def IsCopied_def NewCopyOnWriteBuffer_def)
  have r: "ResolveNumericReferences_cob v = Some \<lparr>buffer = v, copied = False\<rparr>"
    if "\<not> follows (\<lambda>c. c = 38) (\<lambda>c. c = 35) v"
    using ResolveNumericReferences_loop_quiet [OF that, of "[]" 0 ?cob]
    by (simp add: ResolveNumericReferences_cob_def IsCopied_def NewCopyOnWriteBuffer_def)
  have n: "ResolveEntityNames_cob lookup v = Some \<lparr>buffer = v, copied = False\<rparr>"
    if "\<not> follows (\<lambda>c. c = 38) IsAlphaNumeric v"
    using ResolveEntityNames_loop_quiet [OF that, of lookup "[]" 0 ?cob]
    by (simp add: ResolveEntityNames_cob_def IsCopied_def NewCopyOnWriteBuffer_def)
  have l: "URLEscape_cob lookup v False = Some \<lparr>buffer = v, copied = False\<rparr>"
    if "URLEscape_plain v"
    using URLEscape_loop_quiet [OF that, of "[]" ?cob]
    by (simp add: URLEscape_cob_def IsCopied_def NewCopyOnWriteBuffer_def)
  have lt: "URLEscape_cob lookup v True = Some \<lparr>buffer = v, copied = False\<rparr>"
    if "URLEscape_plain v" "\<not> follows (\<lambda>c. c = 92) IsPunct v"
      "\<not> follows (\<lambda>c. c = 38) (\<lambda>c. c = 35) v" "\<not> follows (\<lambda>c. c = 38) IsAlphaNumeric v"
    using URLEscape_loop_quiet [OF that(1), of "[]" ?cob] u [OF that(2)] r [OF that(3)] n [OF that(4)]
    by (simp add: URLEscape_cob_def IsCopied_def NewCopyOnWriteBuffer_def
        UnescapePunctuations_def ResolveNumericReferences_def ResolveEntityNames_def Bytes_def)
  have f: "DoFullUnicodeCaseFolding_cob unicodeCaseFoldings v = Some \<lparr>buffer = v, copied = False\<rparr>"
    if "list_all (\<lambda>k. \<not> folding_trigger unicodeCaseFoldings v k) [0..<length v]"
    using DoFullUnicodeCaseFolding_loop_quiet [of 0 v unicodeCaseFoldings 0 ?cob] that
    by (simp add: DoFullUnicodeCaseFolding_cob_def IsCopied_def NewCopyOnWriteBuffer_def)
  from e u r n l lt f show ?thesis by blast
qed

lemmas trigger_eval =
  IsPunct_def punctTable_def IsAlphaNumeric_def passes_def urlEscapeTable_def utf8lenTable_def
  IsHexDecimal_def nth_append folding_trigger_def RuneStart_def

theorem no_trigger_returns_input_slice_witness:
  "EscapeHTML_cob (bytes ''a b;c'') = Some \<lparr>buffer = bytes ''a b;c'', copied = False\<rparr>
   \<and> UnescapePunctuations_cob [97, 92, 98, 42, 92] = Some \<lparr>buffer = [97, 92, 98, 42, 92], copied = False\<rparr>
   \<and> ResolveNumericReferences_cob (bytes ''a&b#1;'') = Some \<lparr>buffer = bytes ''a&b#1;'', copied = False\<rparr>
   \<and> ResolveEntityNames_cob four_entities (bytes ''a& amp;&#'')
        = Some \<lparr>buffer = bytes ''a& amp;&#'', copied = False\<rparr>
   \<and> URLEscape_cob no_entities (bytes ''a/b%2Gc'' @ [0x80]) False
        = Some \<lparr>buffer = bytes ''a/b%2Gc'' @ [0x80], copied = False\<rparr>
   \<and> URLEscape_cob no_entities (bytes ''a/b%2Gc'') True
        = Some \<lparr>buffer = bytes ''a/b%2Gc'', copied = False\<rparr>
   \<and> DoFullUnicodeCaseFolding_cob some_foldings (bytes ''a1 z'' @ [0xC3, 0xA9])
        = Some \<lparr>buffer = bytes ''a1 z'' @ [0xC3, 0xA9], copied = False\<rparr>"
proof -
  have a: "EscapeHTML_cob (bytes ''a b;c'') = Some \<lparr>buffer = bytes ''a b;c'', copied = False\<rparr>"
    using no_trigger_returns_input_slice [of "bytes ''a b;c''"] by (simp add: bytes_def)
  have b: "UnescapePunctuations_cob [97, 92, 98, 42, 92] = Some \<lparr>buffer = [97, 92, 98, 42, 92], copied = False\<rparr>"
    using no_trigger_returns_input_slice [of "[97, 92, 98, 42, 92]"] by (simp add: trigger_eval)
  have c: "ResolveNumericReferences_cob (bytes ''a&b#1;'') = Some \<lparr>buffer = bytes ''a&b#1;'', copied = False\<rparr>"
    using no_trigger_returns_input_slice [of "bytes ''a&b#1;''"] by (simp add: bytes_def)
  have d: "ResolveEntityNames_cob four_entities (bytes ''a& amp;&#'')
        = Some \<lparr>buffer = bytes ''a& amp;&#'', copied = False\<rparr>"
    using no_trigger_returns_input_slice [of "bytes ''a& amp;&#''" four_entities] by (simp add: bytes_def trigger_eval)
  have e: "URLEscape_cob no_entities (bytes ''a/b%2Gc'' @ [0x80]) False
        = Some \<lparr>buffer = bytes ''a/b%2Gc'' @ [0x80], copied = False\<rparr>"
    using no_trigger_returns_input_slice [of "bytes ''a/b%2Gc'' @ [0x80]" no_entities] by (simp add: bytes_def trigger_eval)
  have f: "URLEscape_cob no_entities (bytes ''a/b%2Gc'') True
        = Some \<lparr>buffer = bytes ''a/b%2Gc'', copied = False\<rparr>"
    using no_trigger_returns_input_slice [of "bytes ''a/b%2Gc''" no_entities] by (simp add: bytes_def trigger_eval)
  have g: "DoFullUnicodeCaseFolding_cob some_foldings (bytes ''a1 z'' @ [0xC3, 0xA9])
        = Some \<lparr>buffer = bytes ''a1 z'' @ [0xC3, 0xA9], copied = False\<rparr>"
    using no_trigger_returns_input_slice [of "bytes ''a1 z'' @ [0xC3, 0xA9]" _ some_foldings]
    by (simp add: bytes_def trigger_eval some_foldings_def DecodeRune_def utf8_first_def
        RuneError_def Let_def upt_rec)
  from a b c d e f g show ?thesis by simp
qed

section \<open>BytesFilter: what Add and Contains guarantee\<close>

text \<open>
  \<open>valid_slot\<close>: a bucket header is well formed in a heap when its array exists and
  holds at least \<open>cap\<close> cells, with \<open>len\<close> at most \<open>cap\<close>; a nil bucket is empty.
  \<open>owns H s xs\<close>: the filter \<open>s\<close> has its 64 buckets and the threshold 3, its mask covers
  the prefixes of the sequences \<open>xs\<close>, every bucket holds exactly the sequences of \<open>xs\<close>
  that hash to it, in the order of \<open>xs\<close>, and no two buckets share an array.
  \<open>empty_filter\<close> is the filter \<open>NewBytesFilter()\<close> starts from.
\<close>

definition valid_slot :: "heap \<Rightarrow> slice_hdr \<Rightarrow> bool" where
  "valid_slot H sl =
     (case slice_ptr sl of
        None \<Rightarrow> slice_len sl = 0
      | Some p \<Rightarrow> p < length H \<and> slice_len sl \<le> slice_cap sl \<and> slice_cap sl \<le> length (H ! p))"

definition owns :: "heap \<Rightarrow> bytesFilter \<Rightarrow> byte list list \<Rightarrow> bool" where
  "owns H s xs =
     (length (slots s) = 64 \<and> threshold s = 3
      \<and> list_all (\<lambda>x. list_all (\<lambda>i. bit (chars s (x ! i)) i) [0..<prefix_len s x]) xs
      \<and> list_all (\<lambda>h. valid_slot H (slots s ! h)
                       \<and> elements H (slots s ! h) = filter (\<lambda>x. slot_index s x = h) xs) [0..<64]
      \<and> list_all (\<lambda>h. list_all (\<lambda>h'. h = h' \<or> slice_ptr (slots s ! h') = None
                                     \<or> slice_ptr (slots s ! h') \<noteq> slice_ptr (slots s ! h))
                         [0..<64]) [0..<64])"

definition empty_filter :: bytesFilter where
  "empty_filter = \<lparr>chars = (\<lambda>c. 0), threshold = 3, slots = replicate 64 nil_slice\<rparr>"

lemma list_all_upt: "list_all P [0..<n] = (\<forall>i<n. P i)"
  by (auto simp: list_all_iff)

lemma elements_length: "valid_slot H sl \<Longrightarrow> length (elements H sl) = slice_len sl"
  by (auto simp: valid_slot_def elements_def split: option.splits)

lemma append1_elements:
  assumes v: "valid_slot H sl" and g: "slice_cap sl < grow (slice_cap sl)"
    and a: "append1 grow H sl b = (H1, sl1)"
  shows "elements H1 sl1 = elements H sl @ [b]" "valid_slot H1 sl1" "slice_len sl1 = slice_len sl + 1"
    "length H \<le> length H1"
proof -
  note len = elements_length [OF v]
  have "elements H1 sl1 = elements H sl @ [b] \<and> valid_slot H1 sl1 \<and> slice_len sl1 = slice_len sl + 1
      \<and> length H \<le> length H1"
  proof (cases "slice_ptr sl")
    case None
    with a len g show ?thesis
      by (auto simp: append1_def Let_def elements_def valid_slot_def)
  next
    case (Some p)
    show ?thesis
    proof (cases "slice_len sl < slice_cap sl")
      case True
      with Some a v show ?thesis
        by (auto simp: append1_def Let_def elements_def valid_slot_def take_Suc_conv_app_nth)
    next
      case False
      with Some v have full: "slice_len sl = slice_cap sl" by (simp add: valid_slot_def)
      from False Some a len g full show ?thesis
        by (auto simp: append1_def Let_def elements_def valid_slot_def)
    qed
  qed
  then show "elements H1 sl1 = elements H sl @ [b]" "valid_slot H1 sl1"
    "slice_len sl1 = slice_len sl + 1" "length H \<le> length H1" by simp_all
qed

text \<open>
  The mask after the loop of \<open>Add\<close>: the bits that were set stay set, and bit \<open>i\<close> of the
  entry of \<open>b[i]\<close> is set for every index of the prefix.
\<close>

lemma bit_mask_byte: "i < 8 \<Longrightarrow> bit (push_bit (i mod 256) 1 :: byte) i"
  by (simp add: bit_simps)

lemma mask_fold_mono:
  "bit (ch c) k \<Longrightarrow>
   bit (fold (\<lambda>i ch. ch(b ! i := ch (b ! i) OR push_bit (i mod 256) 1)) js ch c) k"
  for ch :: "byte \<Rightarrow> byte"
proof (induction js arbitrary: ch)
  case Nil
  then show ?case by simp
next
  case (Cons j js)
  show ?case
    unfolding fold_simps
    by (rule Cons.IH) (use Cons.prems in \<open>auto simp: bit_or_iff simp del: push_bit_of_1\<close>)
qed

lemma mask_fold_set:
  "i \<in> set js \<Longrightarrow> i < 8 \<Longrightarrow>
   bit (fold (\<lambda>i ch. ch(b ! i := ch (b ! i) OR push_bit (i mod 256) 1)) js ch (b ! i)) i"
  for ch :: "byte \<Rightarrow> byte"
proof (induction js arbitrary: ch)
  case Nil
  then show ?case by simp
next
  case (Cons j js)
  show ?case
  proof (cases "i = j")
    case True
    have "bit ((ch(b ! j := ch (b ! j) OR push_bit (j mod 256) 1)) (b ! i)) i"
      using True bit_mask_byte [OF Cons.prems(2)] by (simp add: bit_or_iff del: push_bit_of_1)
    then show ?thesis unfolding fold_simps by (rule mask_fold_mono)
  next
    case False
    with Cons.prems have "i \<in> set js" by simp
    then show ?thesis unfolding fold_simps using Cons.prems(2) by (rule Cons.IH)
  qed
qed

lemma mask_test: "i < 8 \<Longrightarrow> bit x i \<Longrightarrow> x AND push_bit (i mod 256) 1 \<noteq> 0" for x :: byte
proof -
  assume i: "i < 8" and b: "bit x i"
  have "bit (x AND push_bit (i mod 256) 1) i"
    using b bit_mask_byte [OF i] by (simp add: bit_and_iff del: push_bit_of_1)
  then show ?thesis by auto
qed

lemma prefix_len_le: "threshold s = 3 \<Longrightarrow> prefix_len s b \<le> 3"
  by (simp add: prefix_len_def Let_def)

lemma slot_index_less: "length (slots s) = 64 \<Longrightarrow> slot_index s b < 64"
proof -
  assume l: "length (slots s) = 64"
  have "unat (bytesHash b mod 64) < 64"
    by (simp add: unat_mod_distrib)
  with l show ?thesis by (simp add: slot_index_def)
qed

lemma Add_Contains:
  assumes l: "length (slots s) = 64" and t: "threshold s = 3"
    and v: "valid_slot H (slots s ! slot_index s b)"
    and g: "\<And>c. c < grow c"
  shows "\<exists>H1 s1. Add grow H s b = Some (H1, s1) \<and> Contains H1 s1 b = Some True
      \<and> length (slots s1) = 64 \<and> threshold s1 = 3"
proof -
  let ?h = "slot_index s b"
  let ?chars1 = "fold (\<lambda>i ch. ch(b ! i := ch (b ! i) OR push_bit (i mod 256) 1))
                     [0..<prefix_len s b] (chars s)"
  obtain H1 sl1 where a: "append1 grow H (slots s ! ?h) b = (H1, sl1)"
    by (cases "append1 grow H (slots s ! ?h) b")
  note ap = append1_elements [OF v g a]
  let ?s1 = "s\<lparr>chars := ?chars1, slots := (slots s)[?h := sl1]\<rparr>"
  have add: "Add grow H s b = Some (H1, ?s1)"
    using l a by (simp add: Add_def Let_def)
  have h: "?h < 64" using l by (rule slot_index_less)
  have pl: "prefix_len ?s1 b = prefix_len s b" by (simp add: prefix_len_def)
  have si: "slot_index ?s1 b = ?h" by (simp add: slot_index_def)
  have mask: "list_all (\<lambda>i. chars ?s1 (b ! i) AND push_bit (i mod 256) 1 \<noteq> 0) [0..<prefix_len ?s1 b]"
    unfolding pl list_all_iff
  proof
    fix i assume i: "i \<in> set [0..<prefix_len s b]"
    with prefix_len_le [OF t, of b] have i8: "i < 8" by simp
    have c: "chars ?s1 = ?chars1" by simp
    show "chars ?s1 (b ! i) AND push_bit (i mod 256) 1 \<noteq> 0"
      unfolding c by (rule mask_test [OF i8 mask_fold_set [OF i i8]])
  qed
  have sl: "slots ?s1 ! slot_index ?s1 b = sl1"
    unfolding si using h l by simp
  have "Contains H1 ?s1 b = Some True"
    unfolding Contains_def Let_def sl using mask l ap by simp
  with add l t show ?thesis by simp
qed

lemma Contains_exact:
  "Contains H s q = Some True \<Longrightarrow> q \<in> set (elements H (slots s ! slot_index s q))"
  by (auto simp: Contains_def Let_def split: if_splits)
lemma owns_iff:
  "owns H s xs \<longleftrightarrow>
     length (slots s) = 64 \<and> threshold s = 3
     \<and> (\<forall>x\<in>set xs. \<forall>i<prefix_len s x. bit (chars s (x ! i)) i)
     \<and> (\<forall>h<64. valid_slot H (slots s ! h)
                \<and> elements H (slots s ! h) = filter (\<lambda>x. slot_index s x = h) xs)
     \<and> (\<forall>h<64. \<forall>h'<64. h = h' \<or> slice_ptr (slots s ! h') = None
                \<or> slice_ptr (slots s ! h') \<noteq> slice_ptr (slots s ! h))"
  unfolding owns_def list_all_upt by (simp add: list_all_iff)

lemma mask_test_iff: "i < 8 \<Longrightarrow> (x AND push_bit (i mod 256) 1 \<noteq> 0) = bit x i" for x :: byte
proof
  assume i: "i < 8" and "x AND push_bit (i mod 256) 1 \<noteq> 0"
  then obtain k where k: "bit (x AND push_bit (i mod 256) 1) k"
    by (auto simp: bit_eq_iff)
  with i have "k = i" by (simp add: bit_simps del: push_bit_of_1)
  with k show "bit x i" by (simp add: bit_and_iff del: push_bit_of_1)
next
  assume "i < 8" "bit x i"
  then show "x AND push_bit (i mod 256) 1 \<noteq> 0" by (rule mask_test)
qed

lemma append1_frame:
  assumes v: "valid_slot H sl" and v': "valid_slot H sl'"
    and d: "slice_ptr sl' = None \<or> slice_ptr sl' \<noteq> slice_ptr sl"
    and a: "append1 grow H sl b = (H1, sl1)"
  shows "valid_slot H1 sl' \<and> elements H1 sl' = elements H sl'
       \<and> (slice_ptr sl' = None \<or> slice_ptr sl' \<noteq> slice_ptr sl1)"
proof (cases "slice_ptr sl'")
  case None
  with v' a show ?thesis by (simp add: valid_slot_def elements_def)
next
  case (Some p')
  with v' have p': "p' < length H" by (simp add: valid_slot_def)
  show ?thesis
  proof (cases "slice_ptr sl")
    case None
    with a Some v' p' show ?thesis
      by (auto simp: append1_def Let_def valid_slot_def elements_def nth_append)
  next
    case sp: (Some p)
    with d Some have ne: "p' \<noteq> p" by auto
    show ?thesis
    proof (cases "slice_len sl < slice_cap sl")
      case True
      with a sp Some v' p' ne show ?thesis
        by (auto simp: append1_def Let_def valid_slot_def elements_def)
    next
      case False
      with a sp Some v' p' ne show ?thesis
        by (auto simp: append1_def Let_def valid_slot_def elements_def nth_append)
    qed
  qed
qed

lemma append1_ptr:
  assumes "append1 grow H sl b = (H1, sl1)"
  shows "slice_ptr sl1 = Some (length H) \<or> (slice_ptr sl1 = slice_ptr sl \<and> slice_ptr sl \<noteq> None)"
  using assms by (auto simp: append1_def Let_def split: option.splits if_splits)

lemma valid_slot_ptr: "valid_slot H sl \<Longrightarrow> slice_ptr sl = Some p \<Longrightarrow> p < length H"
  by (simp add: valid_slot_def)

lemma owns_Add:
  assumes o: "owns H s xs" and g: "\<And>c. c < grow c"
  shows "\<exists>H1 s1. Add grow H s b = Some (H1, s1) \<and> owns H1 s1 (xs @ [b])"
proof -
  let ?h = "slot_index s b"
  let ?f = "\<lambda>i ch. ch(b ! i := ch (b ! i) OR push_bit (i mod 256) 1)"
  let ?chars1 = "fold ?f [0..<prefix_len s b] (chars s)"
  from o have l: "length (slots s) = 64" and t: "threshold s = 3"
    and m: "\<And>x i. x \<in> set xs \<Longrightarrow> i < prefix_len s x \<Longrightarrow> bit (chars s (x ! i)) i"
    and sl: "\<And>h. h < 64 \<Longrightarrow> valid_slot H (slots s ! h)"
      "\<And>h. h < 64 \<Longrightarrow> elements H (slots s ! h) = filter (\<lambda>x. slot_index s x = h) xs"
    and ds: "\<And>h h'. h < 64 \<Longrightarrow> h' < 64 \<Longrightarrow> h \<noteq> h' \<Longrightarrow>
        slice_ptr (slots s ! h') = None \<or> slice_ptr (slots s ! h') \<noteq> slice_ptr (slots s ! h)"
    unfolding owns_iff by blast+
  have h: "?h < 64" using l by (rule slot_index_less)
  obtain H1 sl1 where a: "append1 grow H (slots s ! ?h) b = (H1, sl1)"
    by (cases "append1 grow H (slots s ! ?h) b")
  note ap = append1_elements [OF sl(1) [OF h] g a]
  define s1 where "s1 = s\<lparr>chars := ?chars1, slots := (slots s)[?h := sl1]\<rparr>"
  have add: "Add grow H s b = Some (H1, s1)"
    using l a by (simp add: Add_def Let_def s1_def)
  have pl: "prefix_len s1 x = prefix_len s x" for x by (simp add: prefix_len_def s1_def)
  have si: "slot_index s1 x = slot_index s x" for x by (simp add: slot_index_def s1_def)
  have c: "chars s1 = ?chars1" by (simp add: s1_def)
  have ss: "slots s1 = (slots s)[?h := sl1]" by (simp add: s1_def)
  have lt: "length (slots s1) = 64" "threshold s1 = 3" using l t by (simp_all add: s1_def)
  have mask: "bit (chars s1 (x ! i)) i" if "x \<in> set (xs @ [b])" "i < prefix_len s1 x" for x i
  proof (cases "x \<in> set xs")
    case True
    with that(2) have "bit (chars s (x ! i)) i" by (intro m) (simp_all add: pl)
    then show ?thesis unfolding c by (rule mask_fold_mono)
  next
    case False
    with that have x: "x = b" by simp
    from that(2) prefix_len_le [OF t, of b] have i8: "i < 8" by (simp add: pl x)
    from that(2) have "i \<in> set [0..<prefix_len s b]" by (simp add: pl x)
    from mask_fold_set [OF this i8, of b "chars s"] show ?thesis unfolding c x .
  qed
  have other: "valid_slot H1 (slots s ! h') \<and> elements H1 (slots s ! h') = elements H (slots s ! h')
       \<and> (slice_ptr (slots s ! h') = None \<or> slice_ptr (slots s ! h') \<noteq> slice_ptr sl1)"
    if "h' < 64" "h' \<noteq> ?h" for h'
    using sl(1) [OF h] sl(1) [OF that(1)] ds [OF h that(1)] that(2) a
    by (intro append1_frame) auto
  have slot: "valid_slot H1 (slots s1 ! h')
      \<and> elements H1 (slots s1 ! h') = filter (\<lambda>x. slot_index s1 x = h') (xs @ [b])" if "h' < 64" for h'
  proof (cases "h' = ?h")
    case True
    with ap sl(2) [OF h] l h show ?thesis unfolding ss si by simp
  next
    case False
    with other [OF that False] sl(2) [OF that] l show ?thesis unfolding ss si by simp
  qed
  have dist: "h1 = h2 \<or> slice_ptr (slots s1 ! h2) = None
      \<or> slice_ptr (slots s1 ! h2) \<noteq> slice_ptr (slots s1 ! h1)" if "h1 < 64" "h2 < 64" for h1 h2
  proof (cases "h1 = h2")
    case True
    then show ?thesis by simp
  next
    case ne: False
    show ?thesis
    proof (cases "h2 = ?h")
      case True
      with ne have n1: "h1 \<noteq> ?h" by simp
      from other [OF that(1) n1] have "slice_ptr (slots s ! h1) = None \<or> slice_ptr (slots s ! h1) \<noteq> slice_ptr sl1"
        by simp
      moreover have "slice_ptr sl1 \<noteq> None" using append1_ptr [OF a] by auto
      ultimately show ?thesis using True n1 l h that unfolding ss by auto
    next
      case n2: False
      show ?thesis
      proof (cases "h1 = ?h")
        case True
        with other [OF that(2) n2] l h that n2 show ?thesis unfolding ss by auto
      next
        case False
        with ds [OF that(1) that(2) ne] n2 l that show ?thesis unfolding ss by auto
      qed
    qed
  qed
  have "owns H1 s1 (xs @ [b])"
    unfolding owns_iff
    using lt mask slot dist by blast
  with add show ?thesis by blast
qed

lemma owns_Add_all:
  assumes g: "\<And>c. c < grow c"
  shows "owns H s xs \<Longrightarrow> \<exists>H1 s1. Add_all grow H s bs = Some (H1, s1) \<and> owns H1 s1 (xs @ bs)"
proof (induction bs arbitrary: H s xs)
  case Nil
  then show ?case by simp
next
  case (Cons b bs)
  from owns_Add [OF Cons.prems g, of b] obtain H1 s1 where a: "Add grow H s b = Some (H1, s1)"
    and o: "owns H1 s1 (xs @ [b])" by blast
  from Cons.IH [OF o] a show ?case by simp
qed

lemma owns_empty:
  "owns H \<lparr>chars = (\<lambda>c. 0), threshold = 3, slots = replicate 64 nil_slice\<rparr> []"
  by (simp add: owns_iff nil_slice_def valid_slot_def elements_def)

lemma owns_NewBytesFilter:
  assumes g: "\<And>c. c < grow c"
  shows "\<exists>H1 s1. NewBytesFilter grow H es = Some (H1, s1) \<and> owns H1 s1 es"
proof -
  from owns_Add_all [OF g owns_empty]
  obtain H1 s1 where
    "Add_all grow H \<lparr>chars = (\<lambda>c. 0), threshold = 3, slots = replicate 64 nil_slice\<rparr> es = Some (H1, s1)"
    "owns H1 s1 ([] @ es)" by blast
  then show ?thesis by (simp add: NewBytesFilter_def)
qed

lemma owns_Contains:
  assumes o: "owns H s xs"
  shows "Contains H s q = Some (q \<in> set xs)"
proof -
  from o have l: "length (slots s) = 64" and t: "threshold s = 3"
    and m: "\<And>x i. x \<in> set xs \<Longrightarrow> i < prefix_len s x \<Longrightarrow> bit (chars s (x ! i)) i"
    and sl: "\<And>h. h < 64 \<Longrightarrow> valid_slot H (slots s ! h)"
      "\<And>h. h < 64 \<Longrightarrow> elements H (slots s ! h) = filter (\<lambda>x. slot_index s x = h) xs"
    unfolding owns_iff by blast+
  have h: "slot_index s q < 64" using l by (rule slot_index_less)
  have el: "q \<in> set (elements H (slots s ! slot_index s q)) \<longleftrightarrow> q \<in> set xs"
    by (simp add: sl(2) [OF h])
  have len: "slice_len (slots s ! slot_index s q) = 0 \<Longrightarrow> q \<notin> set xs"
    using elements_length [OF sl(1) [OF h]] el by auto
  show ?thesis
  proof (cases "list_all (\<lambda>i. chars s (q ! i) AND push_bit (i mod 256) 1 \<noteq> 0) [0..<prefix_len s q]")
    case True
    with l el len show ?thesis by (auto simp: Contains_def Let_def)
  next
    case False
    then obtain i where i: "i < prefix_len s q" and z: "chars s (q ! i) AND push_bit (i mod 256) 1 = 0"
      by (auto simp: list_all_upt)
    from i prefix_len_le [OF t, of q] have i8: "i < 8" by simp
    from z mask_test_iff [OF i8, of "chars s (q ! i)"] have "\<not> bit (chars s (q ! i)) i" by simp
    with m [OF _ i] have "q \<notin> set xs" by blast
    with False show ?thesis by (simp add: Contains_def)
  qed
qed
lemma go_growcap_grows: "c < go_growcap c"
proof -
  have "0 < (c + 768) div 4" by arith
  then show ?thesis by (simp add: go_growcap_def)
qed


text \<open>
  Claim C4. For every filter with well-formed buckets, \<open>Contains(b)\<close> is true immediately
  after \<open>Add(b)\<close>, whatever capacity the runtime chooses when a bucket grows. A true answer
  of \<open>Contains\<close> always comes from an exact match in the bucket of the queried sequence:
  the mask can only reject. A filter built by \<open>NewBytesFilter\<close> and \<open>Add\<close> owns its buckets,
  and for a filter that owns its buckets \<open>Contains(q)\<close> is true exactly when \<open>q\<close> is one of
  the sequences added. For a filter that shares a bucket array with a clone made by
  \<open>Extend\<close> this fails: after \<open>F2 = F1.Extend()\<close>, \<open>F1.Add("or")\<close> and \<open>F2.Add("mt")\<close>, where
  \<open>F1\<close> holds gz, ix, kv in the bucket of or and mt, the call \<open>F1.Contains("mt")\<close> is true
  although mt was never added to \<open>F1\<close>, and \<open>F1.Contains("or")\<close> is false.
\<close>

theorem Contains_after_Add_and_exact_match:
  "(length (slots s) = 64 \<and> threshold s = 3 \<and> valid_slot H (slots s ! slot_index s b)
      \<and> (\<forall>c. c < grow c) \<longrightarrow>
      (\<exists>H1 s1. Add grow H s b = Some (H1, s1) \<and> Contains H1 s1 b = Some True))
   \<and> (Contains H s q = Some True \<longrightarrow> q \<in> set (elements H (slots s ! slot_index s q)))
   \<and> ((\<forall>c. c < grow c) \<longrightarrow>
      (\<exists>H1 s1. NewBytesFilter grow H es = Some (H1, s1) \<and> owns H1 s1 es))
   \<and> (owns H s xs \<and> (\<forall>c. c < grow c) \<longrightarrow>
      (\<exists>H1 s1. Add grow H s b = Some (H1, s1) \<and> owns H1 s1 (xs @ [b])))
   \<and> (owns H s xs \<longrightarrow> Contains H s q = Some (q \<in> set xs))
   \<and> (do {
         (H1, F1) \<leftarrow> NewBytesFilter go_growcap []
                       [bytes ''gz'', bytes ''ix'', bytes ''kv'', bytes ''ma'', bytes ''bt''];
         (H2, F2) \<leftarrow> Extend go_growcap H1 F1 [];
         (H3, F1') \<leftarrow> Add go_growcap H2 F1 (bytes ''or'');
         (H4, F2') \<leftarrow> Add go_growcap H3 F2 (bytes ''mt'');
         Some (Contains H1 F1 (bytes ''mt''), Contains H3 F1' (bytes ''or''),
               Contains H4 F1' (bytes ''mt''), Contains H4 F1' (bytes ''or''))
       }) = Some (Some False, Some True, Some True, Some False)"
proof -
  have run: "(do {
         (H1, F1) \<leftarrow> NewBytesFilter go_growcap []
                       [bytes ''gz'', bytes ''ix'', bytes ''kv'', bytes ''ma'', bytes ''bt''];
         (H2, F2) \<leftarrow> Extend go_growcap H1 F1 [];
         (H3, F1') \<leftarrow> Add go_growcap H2 F1 (bytes ''or'');
         (H4, F2') \<leftarrow> Add go_growcap H3 F2 (bytes ''mt'');
         Some (Contains H1 F1 (bytes ''mt''), Contains H3 F1' (bytes ''or''),
               Contains H4 F1' (bytes ''mt''), Contains H4 F1' (bytes ''or''))
       }) = Some (Some False, Some True, Some True, Some False)"
    by code_simp
  have a: "\<exists>H1 s1. Add grow H s b = Some (H1, s1) \<and> Contains H1 s1 b = Some True"
    if "length (slots s) = 64" "threshold s = 3" "valid_slot H (slots s ! slot_index s b)"
      "\<forall>c. c < grow c"
    using Add_Contains [OF that(1-3), of grow] that(4) by blast
  have n: "\<exists>H1 s1. NewBytesFilter grow H es = Some (H1, s1) \<and> owns H1 s1 es" if "\<forall>c. c < grow c"
    using that by (intro owns_NewBytesFilter) simp
  have o: "\<exists>H1 s1. Add grow H s b = Some (H1, s1) \<and> owns H1 s1 (xs @ [b])"
    if "owns H s xs" "\<forall>c. c < grow c"
    using that by (intro owns_Add) simp_all
  from a n o Contains_exact [of H s q] owns_Contains [of H s xs q] run show ?thesis by blast
qed

theorem Contains_after_Add_and_exact_match_witness:
  "(\<exists>H1 s1. Add go_growcap [] empty_filter (bytes ''gz'') = Some (H1, s1)
        \<and> Contains H1 s1 (bytes ''gz'') = Some True \<and> owns H1 s1 [bytes ''gz''])
   \<and> (\<exists>H1 s1. NewBytesFilter go_growcap [] [bytes ''gz'', bytes ''ix''] = Some (H1, s1)
        \<and> owns H1 s1 [bytes ''gz'', bytes ''ix''])
   \<and> Contains [] empty_filter (bytes ''gz'') = Some False"
proof -
  have o: "owns [] empty_filter []" unfolding empty_filter_def by (rule owns_empty)
  have v: "valid_slot [] (slots empty_filter ! slot_index empty_filter (bytes ''gz''))"
    using slot_index_less [of empty_filter "bytes ''gz''"]
    by (simp add: empty_filter_def nil_slice_def valid_slot_def)
  have g: "\<forall>c. c < go_growcap c" by (simp add: go_growcap_grows)
  have l: "length (slots empty_filter) = 64" "threshold empty_filter = 3"
    by (simp_all add: empty_filter_def)
  note t = Contains_after_Add_and_exact_match [of empty_filter "[]" "bytes ''gz''" go_growcap "bytes ''gz''"
      "[bytes ''gz'', bytes ''ix'']" "[]"]
  from t o v g l show ?thesis by auto
qed

section \<open>BytesFilter: Extend shares the buckets\<close>

lemma Extend_slots_stores_receiver:
  "k + length vs \<le> length (slots nf) \<Longrightarrow>
   \<exists>H'. Extend_slots H nf k vs
          = Some (H', nf\<lparr>slots := take k (slots nf) @ vs @ drop (k + length vs) (slots nf)\<rparr>)
        \<and> take (length H) H' = H"
proof (induction vs arbitrary: H nf k)
  case Nil
  then show ?case by simp
next
  case (Cons v vs)
  let ?nf = "nf\<lparr>slots := (slots nf)[k := v]\<rparr>"
  let ?H1 = "H @ [elements H v]"
  from Cons.prems have k: "k < length (slots nf)" by simp
  from Cons.prems have "(k + 1) + length vs \<le> length (slots ?nf)" by simp
  from Cons.IH [OF this, of ?H1] obtain H' where
    e: "Extend_slots ?H1 ?nf (k + 1) vs
          = Some (H', ?nf\<lparr>slots := take (k + 1) (slots ?nf) @ vs @ drop (k + 1 + length vs) (slots ?nf)\<rparr>)"
    and h: "take (length ?H1) H' = ?H1" by blast
  have "take (k + 1) (slots ?nf) = take k (slots nf) @ [v]"
    using k by (simp add: take_Suc_conv_app_nth)
  moreover have "drop (k + 1 + length vs) (slots ?nf) = drop (k + length (v # vs)) (slots nf)"
    by simp
  moreover have "take (length H) H' = H"
  proof -
    have "take (length H) H' = take (length H) (take (length ?H1) H')" by simp
    also have "\<dots> = H" unfolding h by simp
    finally show ?thesis .
  qed
  ultimately show ?case using e k by simp
qed

lemma Extend_shares:
  assumes l: "length (slots s) = 64"
  shows "\<exists>H'. Extend grow H s [] = Some (H', s) \<and> take (length H) H' = H"
proof -
  let ?nf = "\<lparr>chars = chars s, threshold = threshold s, slots = replicate 64 nil_slice\<rparr>"
  from Extend_slots_stores_receiver [of 0 "slots s" ?nf H] l
  obtain H' where e: "Extend_slots H ?nf 0 (slots s) = Some (H', ?nf\<lparr>slots := slots s\<rparr>)"
    and h: "take (length H) H' = H" by auto
  have "?nf\<lparr>slots := slots s\<rparr> = s" by simp
  with e h show ?thesis
    by (simp add: Extend_def NewBytesFilter_def)
qed

text \<open>
  Claim C1. \<open>Extend\<close> allocates \<open>newSlot\<close> and copies the bucket into it, and then stores
  the bucket \<open>v\<close> of the receiver in the new filter: for every filter with its 64 buckets
  the filter that \<open>Extend()\<close> returns has the bucket headers of the receiver, over the
  same arrays, and the heap it had before is unchanged. So an \<open>Add\<close> on the receiver
  can write into a cell that the clone reads. With gz, ix, kv in one bucket (length 3,
  capacity 4), \<open>F2 = F1.Extend("mt")\<close> puts mt into cell 3 of the shared array; \<open>F1\<close> does
  not contain mt and \<open>F2\<close> does; then \<open>F1.Add("or")\<close> overwrites the cell, and
  \<open>F2.Contains("mt")\<close> is false. Bucket 6 of \<open>F1\<close>, of \<open>F2\<close> and of \<open>F1\<close> after its \<open>Add\<close> is
  the same array, number 2 of the heap.
\<close>

theorem Extend_shares_buckets:
  "(length (slots s) = 64 \<longrightarrow>
      (\<exists>H'. Extend grow H s [] = Some (H', s) \<and> take (length H) H' = H))
   \<and> (do {
         (H1, F1) \<leftarrow> NewBytesFilter go_growcap [] [bytes ''gz'', bytes ''ix'', bytes ''kv''];
         (H2, F2) \<leftarrow> Extend go_growcap H1 F1 [bytes ''mt''];
         (H3, F1') \<leftarrow> Add go_growcap H2 F1 (bytes ''or'');
         Some (Contains H2 F1 (bytes ''mt''), Contains H2 F2 (bytes ''mt''),
               Contains H3 F2 (bytes ''mt''),
               slice_ptr (slots F1 ! 6), slice_ptr (slots F2 ! 6), slice_ptr (slots F1' ! 6))
       }) = Some (Some False, Some True, Some False, Some 2, Some 2, Some 2)"
proof -
  have run: "(do {
         (H1, F1) \<leftarrow> NewBytesFilter go_growcap [] [bytes ''gz'', bytes ''ix'', bytes ''kv''];
         (H2, F2) \<leftarrow> Extend go_growcap H1 F1 [bytes ''mt''];
         (H3, F1') \<leftarrow> Add go_growcap H2 F1 (bytes ''or'');
         Some (Contains H2 F1 (bytes ''mt''), Contains H2 F2 (bytes ''mt''),
               Contains H3 F2 (bytes ''mt''),
               slice_ptr (slots F1 ! 6), slice_ptr (slots F2 ! 6), slice_ptr (slots F1' ! 6))
       }) = Some (Some False, Some True, Some False, Some 2, Some 2, Some 2)"
    by code_simp
  from Extend_shares [of s grow H] run show ?thesis by blast
qed

theorem Extend_shares_buckets_witness:
  "\<exists>H'. Extend go_growcap [] empty_filter [] = Some (H', empty_filter) \<and> take 0 H' = []"
  using Extend_shares_buckets [of empty_filter go_growcap "[]"] by (simp add: empty_filter_def)


end
